theory Spec2Isabelle
  imports Complex_Main "HOL-Library.Sublist" "HOL-Library.AList" "HOL-Library.Monad_Syntax"
begin

section \<open>Go library functions used by the collectors\<close>

text \<open>
  Go strings are byte sequences; they are modelled as \<open>string\<close> (a list of \<open>char\<close>, one per
  byte). \<open>len\<close> is \<open>length\<close>, \<open>s[i:]\<close> is \<open>drop i s\<close> and \<open>s[:i]\<close> is \<open>take i s\<close> (the source
  slices only at indices it has checked to be in range).
\<close>

text \<open>\<open>strings.Index(s, substr)\<close>: the byte index of the first occurrence, \<open>-1\<close> if there is none.\<close>

fun Index :: "string \<Rightarrow> string \<Rightarrow> int" where
  "Index [] substr = (if substr = [] then 0 else -1)"
| "Index (c # cs) substr =
     (if prefix substr (c # cs) then 0
      else (let i = Index cs substr in if i = -1 then -1 else i + 1))"

lemma Index_nonneg_nonempty: "0 \<le> Index s sep \<Longrightarrow> sep \<noteq> [] \<Longrightarrow> s \<noteq> []"
  by (cases s) auto

lemma Split_decreases:
  assumes "sep \<noteq> []" and "\<not> Index s sep < 0"
  shows "length s - (nat (Index s sep) + length sep) < length s"
proof -
  from assms have "s \<noteq> []" by (auto dest: Index_nonneg_nonempty)
  with assms(1) show ?thesis by (cases s; cases sep) auto
qed

text \<open>
  \<open>strings.Split(s, sep)\<close>: cut at every non-overlapping occurrence of \<open>sep\<close>, found left to
  right with \<open>Index\<close>. With an empty separator Go splits after every character.
\<close>

function Split :: "string \<Rightarrow> string \<Rightarrow> string list" where
  "Split s sep =
     (if sep = [] then map (\<lambda>c. [c]) s
      else (let m = Index s sep in
            if m < 0 then [s]
            else take (nat m) s # Split (drop (nat m + length sep) s) sep))"
  by pat_completeness auto
termination
  by (relation "measure (\<lambda>(s, sep). length s)") (auto intro: Split_decreases)

declare Split.simps [simp del]

text \<open>
  \<open>unicode.IsSpace\<close> on the ASCII range: tab, line feed, vertical tab, form feed, carriage
  return and space. (The package indexes are ASCII; the two-byte UTF-8 spaces that
  \<open>strings.Fields\<close> also recognises are outside this model.)
\<close>

definition isSpace :: "char \<Rightarrow> bool" where
  "isSpace c = (c = CHR 0x09 \<or> c = CHR 0x0A \<or> c = CHR 0x0B \<or> c = CHR 0x0C
     \<or> c = CHR 0x0D \<or> c = CHR 0x20)"

text \<open>\<open>strings.Fields(s)\<close>: the maximal runs of non-space characters of \<open>s\<close>.\<close>

fun Fields_from :: "string \<Rightarrow> string \<Rightarrow> string list" where
  "Fields_from cur [] = (if cur = [] then [] else [cur])"
| "Fields_from cur (c # cs) =
     (if isSpace c then (if cur = [] then Fields_from [] cs else cur # Fields_from [] cs)
      else Fields_from (cur @ [c]) cs)"

definition Fields :: "string \<Rightarrow> string list" where
  "Fields s = Fields_from [] s"

text \<open>\<open>strings.HasPrefix\<close>, \<open>strings.HasSuffix\<close> and \<open>strings.TrimSuffix\<close>.\<close>

definition HasPrefix :: "string \<Rightarrow> string \<Rightarrow> bool" where
  "HasPrefix s p = prefix p s"

definition HasSuffix :: "string \<Rightarrow> string \<Rightarrow> bool" where
  "HasSuffix s suf = suffix suf s"

definition TrimSuffix :: "string \<Rightarrow> string \<Rightarrow> string" where
  "TrimSuffix s suf = (if HasSuffix s suf then take (length s - length suf) s else s)"

text \<open>
  A Go \<open>map[string]T\<close> is modelled as an association list with pairwise distinct keys:
  \<open>map_of\<close> is the lookup, \<open>AList.update\<close> the assignment \<open>m[k] = v\<close>, and \<open>range\<close> visits the
  entries in list order. Go leaves the iteration order open; a statement proved for every
  association list covers every order.
\<close>

section \<open>The Alpine collector (pkg/collector/alpine/alpine.go)\<close>

text \<open>The struct \<open>PackageInfo\<close>. \<open>float64\<close> is modelled as \<open>real\<close>: rounding is not modelled.\<close>

record PackageInfo =
  DependsCount :: int
  Description :: string
  Homepage :: string
  PageRank :: real
  Version :: string
  PackageName :: string
  Depends :: "string list"

text \<open>The zero value of the struct, which \<open>var pkg PackageInfo\<close> declares for every entry.\<close>

definition zero_PackageInfo :: PackageInfo where
  "zero_PackageInfo = \<lparr>DependsCount = 0, Description = [], Homepage = [], PageRank = 0,
     Version = [], PackageName = [], Depends = []\<rparr>"

text \<open>
  The body of the loop over the tokens of a \<open>D:\<close> line in \<open>getPackageList\<close>: cut through the
  first \<open>:\<close>, then cut from the first \<open>=\<close>.
\<close>

definition normalizeDep :: "string \<Rightarrow> string" where
  "normalizeDep dep =
     (let idx = Index dep '':'';
          dep1 = (if idx \<noteq> -1 then drop (nat (idx + 1)) dep else dep);
          idx2 = Index dep1 ''='';
          dep2 = (if idx2 \<noteq> -1 then take (nat idx2) dep1 else dep1)
      in dep2)"

text \<open>The \<open>switch line[0:2]\<close> of \<open>getPackageList\<close>, applied to one line of an entry.\<close>

definition parseLine :: "PackageInfo \<Rightarrow> string \<Rightarrow> PackageInfo" where
  "parseLine pkg line =
     (if length line < 2 then pkg
      else if take 2 line = ''P:'' then pkg\<lparr>PackageName := drop 2 line\<rparr>
      else if take 2 line = ''V:'' then pkg\<lparr>Version := drop 2 line\<rparr>
      else if take 2 line = ''D:'' then
        pkg\<lparr>Depends := Depends pkg @ map normalizeDep (Fields (drop 2 line))\<rparr>
      else if take 2 line = ''T:'' then pkg\<lparr>Description := drop 2 line\<rparr>
      else if take 2 line = ''U:'' then pkg\<lparr>Homepage := drop 2 line\<rparr>
      else pkg)"

text \<open>The loop over the lines of one entry.\<close>

definition parseEntry :: "string \<Rightarrow> PackageInfo" where
  "parseEntry entry = foldl parseLine zero_PackageInfo (Split entry ''\<newline>'')"

type_synonym pkgmap = "(string \<times> PackageInfo) list"

text \<open>The end of the loop body: \<open>if pkg.PackageName != "" { packageList[pkg.PackageName] = pkg }\<close>.\<close>

definition addEntry :: "pkgmap \<Rightarrow> string \<Rightarrow> pkgmap" where
  "addEntry packageList entry =
     (let pkg = parseEntry entry in
      if PackageName pkg \<noteq> [] then AList.update (PackageName pkg) pkg packageList
      else packageList)"

text \<open>
  \<open>getPackageList\<close> from the point where \<open>data\<close> holds the decompressed index text (the
  download and the decompression are not modelled).
\<close>

definition getPackageList :: "string \<Rightarrow> pkgmap" where
  "getPackageList data = foldl addEntry [] (Split data ''\<newline>\<newline>'')"

text \<open>
  The method \<open>GetAllDependencies\<close>: a depth-first traversal. The map \<open>visited\<close> is shared by
  all recursive calls, so the model passes it through and returns it with the slice \<open>deps\<close>.
  \<open>GetAllDependencies_loop\<close> is the \<open>for\<close> loop over \<open>pkg.Depends\<close>.
\<close>

function GetAllDependencies ::
    "PackageInfo \<Rightarrow> pkgmap \<Rightarrow> string set \<Rightarrow> string list \<Rightarrow> string set \<times> string list"
  and GetAllDependencies_loop ::
    "string list \<Rightarrow> pkgmap \<Rightarrow> string set \<Rightarrow> string list \<Rightarrow> string set \<times> string list"
where
  "GetAllDependencies pkg packages visited deps =
     (if PackageName pkg \<in> visited then (visited, deps)
      else GetAllDependencies_loop (Depends pkg) packages
             (insert (PackageName pkg) visited) (deps @ [PackageName pkg]))"
| "GetAllDependencies_loop [] packages visited deps = (visited, deps)"
| "GetAllDependencies_loop (depName # rest) packages visited deps =
     (case map_of packages depName of
        Some depPkg \<Rightarrow>
          (case GetAllDependencies depPkg packages visited deps of
             (visited', deps') \<Rightarrow> GetAllDependencies_loop rest packages visited' deps')
      | None \<Rightarrow> GetAllDependencies_loop rest packages visited deps)"
  by pat_completeness auto

text \<open>
  The recursion is nested (the loop continues with the \<open>visited\<close> that the recursive call
  returns), so termination needs that a call only adds to \<open>visited\<close>. Every call that is not
  cut off marks a package name of the index that was not marked before.
\<close>

lemma GetAllDependencies_visited_grows:
  "GetAllDependencies_GetAllDependencies_loop_dom (Inl (pkg, packages, visited, deps)) \<Longrightarrow>
     visited \<subseteq> fst (GetAllDependencies pkg packages visited deps)"
  "GetAllDependencies_GetAllDependencies_loop_dom (Inr (ds, packages, visited, deps)) \<Longrightarrow>
     visited \<subseteq> fst (GetAllDependencies_loop ds packages visited deps)"
proof (induction pkg packages visited deps and ds packages visited deps
    rule: GetAllDependencies_GetAllDependencies_loop.pinduct)
  case (1 pkg packages visited deps)
  then show ?case
    by (auto simp: GetAllDependencies.psimps)
next
  case (2 packages visited deps)
  then show ?case by (simp add: GetAllDependencies_loop.psimps)
next
  case (3 depName rest packages visited deps)
  show ?case
  proof (cases "map_of packages depName")
    case None
    with 3 show ?thesis by (simp add: GetAllDependencies_loop.psimps)
  next
    case (Some depPkg)
    obtain v' d' where r: "GetAllDependencies depPkg packages visited deps = (v', d')"
      by (cases "GetAllDependencies depPkg packages visited deps")
    from 3(3)[OF Some] r have "visited \<subseteq> v'" by simp
    moreover from 3(4)[OF Some r[symmetric]]
    have "v' \<subseteq> fst (GetAllDependencies_loop rest packages v' d')" .
    ultimately show ?thesis
      using 3(1) Some r by (simp add: GetAllDependencies_loop.psimps)
  qed
qed

definition pkgNames :: "pkgmap \<Rightarrow> string set" where
  "pkgNames packages = set (map (PackageName \<circ> snd) packages)"

lemma finite_pkgNames [simp]: "finite (pkgNames packages)"
  by (simp add: pkgNames_def)

lemma map_of_pkgNames: "map_of packages k = Some pkg \<Longrightarrow> PackageName pkg \<in> pkgNames packages"
  by (force simp: pkgNames_def dest: map_of_SomeD)

lemma GetAllDependencies_dom_all: "GetAllDependencies_GetAllDependencies_loop_dom x"
proof -
  have "All GetAllDependencies_GetAllDependencies_loop_dom"
  proof (relation "inv_image (less_than <*lex*> less_than)
      (\<lambda>x. case x of
          Inl (pkg, packages, visited, deps) \<Rightarrow>
            (card (insert (PackageName pkg) (pkgNames packages) - visited), 0)
        | Inr (ds, packages, visited, deps) \<Rightarrow>
            (card (pkgNames packages - visited), Suc (length ds)))", goal_cases)
    case 1
    show ?case by (intro wf_inv_image wf_lex_prod wf_less_than)
  next
    case (2 pkg packages visited deps)
    have "insert (PackageName pkg) (pkgNames packages) - visited
        = insert (PackageName pkg) (pkgNames packages - insert (PackageName pkg) visited)"
      using 2 by auto
    then show ?case by simp
  next
    case (3 depName rest packages visited deps)
    then show ?case by simp
  next
    case (4 depName rest packages visited deps depPkg)
    then show ?case by (simp add: insert_absorb map_of_pkgNames)
  next
    case (5 depName rest packages visited deps depPkg v' d')
    then have "visited \<subseteq> v'"
      using GetAllDependencies_visited_grows(1)[of depPkg packages visited deps]
      by (metis fst_conv)
    then have "card (pkgNames packages - v') \<le> card (pkgNames packages - visited)"
      by (intro card_mono) auto
    then show ?case by auto
  qed
  then show ?thesis ..
qed

termination GetAllDependencies
  using GetAllDependencies_dom_all by blast

declare GetAllDependencies.simps [simp del]

text \<open>The closure that \<open>Collect\<close> computes for one entry of the index.\<close>

definition alpine_closure :: "pkgmap \<Rightarrow> PackageInfo \<Rightarrow> string list" where
  "alpine_closure packages pkgInfo = snd (GetAllDependencies pkgInfo packages {} [])"

text \<open>
  The first two loops of \<open>Collect\<close>: \<open>depMap[pkgName]\<close> is the closure of each package, and
  \<open>countMap[dep]++\<close> runs over every element of every closure. A missing key of a Go map
  reads as \<open>0\<close>. \<open>Collect\<close> stores \<open>countMap[pkgName]\<close> in the field \<open>DependsCount\<close>.
\<close>

definition depMap :: "pkgmap \<Rightarrow> (string \<times> string list) list" where
  "depMap pkgInfoMap =
     map (\<lambda>(pkgName, pkgInfo). (pkgName, alpine_closure pkgInfoMap pkgInfo)) pkgInfoMap"

definition lookupCount :: "(string \<rightharpoonup> int) \<Rightarrow> string \<Rightarrow> int" where
  "lookupCount countMap k = (case countMap k of None \<Rightarrow> 0 | Some c \<Rightarrow> c)"

definition increment :: "(string \<rightharpoonup> int) \<Rightarrow> string \<Rightarrow> (string \<rightharpoonup> int)" where
  "increment countMap dep = countMap(dep \<mapsto> lookupCount countMap dep + 1)"

definition countMap :: "(string \<times> string list) list \<Rightarrow> (string \<rightharpoonup> int)" where
  "countMap dm = foldl (\<lambda>cm (pkgName, deps). foldl increment cm deps) Map.empty dm"

definition alpine_dependsCount :: "pkgmap \<Rightarrow> string \<Rightarrow> int" where
  "alpine_dependsCount pkgInfoMap pkgName = lookupCount (countMap (depMap pkgInfoMap)) pkgName"

text \<open>
  The parser stores every record under its own name. The graph the traversal walks has an
  edge for every dependency token that is a key of the index.
\<close>

definition keys_are_names :: "pkgmap \<Rightarrow> bool" where
  "keys_are_names packages = list_all (\<lambda>(k, pkg). PackageName pkg = k) packages"

definition alpine_edges :: "pkgmap \<Rightarrow> (string \<times> string) set" where
  "alpine_edges packages =
     {(x, y). \<exists>pkg. map_of packages x = Some pkg \<and> y \<in> set (Depends pkg)
        \<and> map_of packages y \<noteq> None}"

section \<open>The CentOS collector (pkg/collector/centos/centos.go)\<close>

text \<open>
  The struct \<open>PackageInfo\<close> of package \<open>centos\<close>; its fields carry the prefix \<open>c_\<close> to keep
  them apart from the Alpine struct of the same name.
\<close>

record centos_PackageInfo =
  c_Depends :: "string list"
  c_DependsCount :: int
  c_Description :: string
  c_GitRepo :: string
  c_Homepage :: string
  c_Name :: string
  c_PageRank :: real
  c_URL :: string
  c_Version :: string

type_synonym centos_pkgmap = "(string \<times> centos_PackageInfo) list"

text \<open>The zero value of the struct.\<close>

definition zero_centos_PackageInfo :: centos_PackageInfo where
  "zero_centos_PackageInfo = \<lparr>c_Depends = [], c_DependsCount = 0, c_Description = [],
     c_GitRepo = [], c_Homepage = [], c_Name = [], c_PageRank = 0, c_URL = [], c_Version = []\<rparr>"

text \<open>
  The \<open>case "description"\<close> of \<open>parsePackageXML\<close>, after \<open>DecodeElement\<close> has produced the text
  of the element.
\<close>

definition setDescription :: "centos_PackageInfo \<Rightarrow> string \<Rightarrow> centos_PackageInfo" where
  "setDescription pkgInfo description =
     pkgInfo\<lparr>c_Description :=
       (if length description > 255 then take 254 description else description)\<rparr>"

text \<open>
  The package loop of \<open>getDependencies\<close>. The XML decoder is library code and is not
  modelled: the input is the sequence of \<open>package\<close> elements it delivers, each with its
  \<open>type\<close> attribute and the result of \<open>parsePackageXML\<close> on its content. An error of
  \<open>parsePackageXML\<close> ends the loop and is returned.
\<close>

datatype xml_error = XmlError string

fun getDependencies_loop ::
  "centos_pkgmap \<Rightarrow> (string \<times> (xml_error + centos_PackageInfo)) list \<Rightarrow> xml_error + centos_pkgmap"
where
  "getDependencies_loop PkgInfoMap [] = Inr PkgInfoMap"
| "getDependencies_loop PkgInfoMap ((type, parsed) # rest) =
     (if type = ''rpm'' then
        (case parsed of
           Inl err \<Rightarrow> Inl err
         | Inr pkgInfo \<Rightarrow>
             (if map_of PkgInfoMap (c_Name pkgInfo) = None
              then getDependencies_loop (AList.update (c_Name pkgInfo) pkgInfo PkgInfoMap) rest
              else getDependencies_loop PkgInfoMap rest))
      else getDependencies_loop PkgInfoMap rest)"

text \<open>
  The method \<open>getAllDep\<close>. It takes a name, marks and appends it, and only then looks the
  name up in \<open>cc.PkgInfoMap\<close> to descend into its dependencies.
\<close>

function getAllDep ::
    "centos_pkgmap \<Rightarrow> string \<Rightarrow> string set \<Rightarrow> string list \<Rightarrow> string set \<times> string list"
  and getAllDep_loop ::
    "centos_pkgmap \<Rightarrow> string list \<Rightarrow> string set \<Rightarrow> string list \<Rightarrow> string set \<times> string list"
where
  "getAllDep PkgInfoMap pkgName visited deps =
     (if pkgName \<in> visited then (visited, deps)
      else (case map_of PkgInfoMap pkgName of
              Some pkg \<Rightarrow>
                getAllDep_loop PkgInfoMap (c_Depends pkg) (insert pkgName visited) (deps @ [pkgName])
            | None \<Rightarrow> (insert pkgName visited, deps @ [pkgName])))"
| "getAllDep_loop PkgInfoMap [] visited deps = (visited, deps)"
| "getAllDep_loop PkgInfoMap (depName # rest) visited deps =
     (case getAllDep PkgInfoMap depName visited deps of
        (visited', deps') \<Rightarrow> getAllDep_loop PkgInfoMap rest visited' deps')"
  by pat_completeness auto

lemma getAllDep_visited_grows:
  "getAllDep_getAllDep_loop_dom (Inl (m, n, visited, deps)) \<Longrightarrow>
     visited \<subseteq> fst (getAllDep m n visited deps)"
  "getAllDep_getAllDep_loop_dom (Inr (m, ds, visited, deps)) \<Longrightarrow>
     visited \<subseteq> fst (getAllDep_loop m ds visited deps)"
proof (induction m n visited deps and m ds visited deps rule: getAllDep_getAllDep_loop.pinduct)
  case (1 m n visited deps)
  then show ?case
    by (auto simp: getAllDep.psimps split: option.splits)
next
  case (2 m visited deps)
  then show ?case by (simp add: getAllDep_loop.psimps)
next
  case (3 m depName rest visited deps)
  obtain v' d' where r: "getAllDep m depName visited deps = (v', d')"
    by (cases "getAllDep m depName visited deps")
  from 3(2) r have "visited \<subseteq> v'" by simp
  moreover from 3(3)[OF r[symmetric]] have "v' \<subseteq> fst (getAllDep_loop m rest v' d')" .
  ultimately show ?case
    using 3(1) r by (simp add: getAllDep_loop.psimps)
qed

lemma getAllDep_dom_all: "getAllDep_getAllDep_loop_dom x"
proof -
  have "All getAllDep_getAllDep_loop_dom"
  proof (relation "inv_image (less_than <*lex*> less_than)
      (\<lambda>x. case x of
          Inl (m, n, visited, deps) \<Rightarrow> (card (fst ` set m - visited), 0)
        | Inr (m, ds, visited, deps) \<Rightarrow> (card (fst ` set m - visited), Suc (length ds)))",
      goal_cases)
    case 1
    show ?case by (intro wf_inv_image wf_lex_prod wf_less_than)
  next
    case (2 m n visited deps pkg)
    then have "n \<in> fst ` set m" by (force dest: map_of_SomeD)
    with 2 have "fst ` set m - insert n visited \<subset> fst ` set m - visited" by auto
    then have "card (fst ` set m - insert n visited) < card (fst ` set m - visited)"
      by (intro psubset_card_mono) auto
    then show ?case by simp
  next
    case (3 m depName rest visited deps)
    then show ?case by simp
  next
    case (4 m depName rest visited deps v' d')
    then have "visited \<subseteq> v'"
      using getAllDep_visited_grows(1)[of m depName visited deps] by (metis fst_conv)
    then have "card (fst ` set m - v') \<le> card (fst ` set m - visited)"
      by (intro card_mono) auto
    then show ?case by auto
  qed
  then show ?thesis ..
qed

termination getAllDep
  using getAllDep_dom_all by blast

declare getAllDep.simps [simp del]

text \<open>The closure and the counts of \<open>Collect\<close>, as in the Alpine collector.\<close>

definition centos_closure :: "centos_pkgmap \<Rightarrow> string \<Rightarrow> string list" where
  "centos_closure PkgInfoMap pkgName = snd (getAllDep PkgInfoMap pkgName {} [])"

definition centos_depMap :: "centos_pkgmap \<Rightarrow> (string \<times> string list) list" where
  "centos_depMap PkgInfoMap =
     map (\<lambda>(pkgName, pkgInfo). (pkgName, centos_closure PkgInfoMap pkgName)) PkgInfoMap"

definition centos_dependsCount :: "centos_pkgmap \<Rightarrow> string \<Rightarrow> int" where
  "centos_dependsCount PkgInfoMap pkgName = lookupCount (countMap (centos_depMap PkgInfoMap)) pkgName"

text \<open>
  The graph \<open>getAllDep\<close> walks has an edge for every dependency token of a package of the
  index; \<open>centos_index_edges\<close> keeps the edges whose target is a package of the index.
\<close>

definition centos_edges :: "centos_pkgmap \<Rightarrow> (string \<times> string) set" where
  "centos_edges m = {(x, y). \<exists>pkg. map_of m x = Some pkg \<and> y \<in> set (c_Depends pkg)}"

definition centos_index_edges :: "centos_pkgmap \<Rightarrow> (string \<times> string) set" where
  "centos_index_edges m =
     {(x, y). \<exists>pkg. map_of m x = Some pkg \<and> y \<in> set (c_Depends pkg) \<and> map_of m y \<noteq> None}"

section \<open>PageRank and persistence (the same code in both collectors)\<close>

text \<open>
  \<open>calculatePageRank\<close> and \<open>storeDependenciesInDatabase\<close> are written twice, once per
  collector, with the same body; of a package they read only the key and the field
  \<open>Depends\<close>. The model has one copy, over the list of keys with their dependency tokens.
\<close>

definition alpine_graph :: "pkgmap \<Rightarrow> (string \<times> string list) list" where
  "alpine_graph pkgInfoMap = map (\<lambda>(pkgName, pkgInfo). (pkgName, Depends pkgInfo)) pkgInfoMap"

definition centos_graph :: "centos_pkgmap \<Rightarrow> (string \<times> string list) list" where
  "centos_graph PkgInfoMap = map (\<lambda>(pkgName, pkgInfo). (pkgName, c_Depends pkgInfo)) PkgInfoMap"

text \<open>
  The quotient \<open>x / float64(n)\<close> of a \<open>float64\<close> by a converted \<open>int\<close>. Go itself does not
  panic on a floating-point division by zero (the result is an infinity or NaN); the model
  makes the zero divisor visible as the value \<open>None\<close>, so that a run that returns \<open>Some\<close> has
  executed no division by zero. The conversion of a non-zero \<open>int\<close> is a non-zero \<open>float64\<close>, so
  the test on the integer is the test on the divisor.
\<close>

definition fdiv :: "real \<Rightarrow> int \<Rightarrow> real option" where
  "fdiv x n = (if n = 0 then None else Some (x / real_of_int n))"

text \<open>Reading a Go map of \<open>float64\<close>: a missing key reads as \<open>0\<close>.\<close>

definition lookupRank :: "(string \<rightharpoonup> real) \<Rightarrow> string \<Rightarrow> real" where
  "lookupRank pageRank k = (case pageRank k of None \<Rightarrow> 0 | Some r \<Rightarrow> r)"

text \<open>
  The loops \<open>for pkgName := range pkgInfoMap { m[pkgName] = x / float64(numPackages) }\<close>,
  with \<open>x = 1.0\<close> for the first vector and \<open>x = 1 - dampingFactor\<close> in every iteration.
\<close>

fun fillRanks :: "real \<Rightarrow> int \<Rightarrow> string list \<Rightarrow> (string \<rightharpoonup> real) \<Rightarrow> (string \<rightharpoonup> real) option" where
  "fillRanks x numPackages [] pageRank = Some pageRank"
| "fillRanks x numPackages (pkgName # rest) pageRank =
     do { v \<leftarrow> fdiv x numPackages;
          fillRanks x numPackages rest (pageRank(pkgName \<mapsto> v)) }"

text \<open>
  The second loop over \<open>pkgInfo.Depends\<close>:
  \<open>newPageRank[depName] += dampingFactor * (pageRank[pkgName] / float64(depNum))\<close> for every
  token that is a key of the index.
\<close>

fun distribute ::
  "(string \<Rightarrow> bool) \<Rightarrow> real \<Rightarrow> real \<Rightarrow> int \<Rightarrow> string list \<Rightarrow> (string \<rightharpoonup> real)
     \<Rightarrow> (string \<rightharpoonup> real) option" where
  "distribute exists dampingFactor rank depNum [] newPageRank = Some newPageRank"
| "distribute exists dampingFactor rank depNum (depName # rest) newPageRank =
     (if exists depName then
        do { share \<leftarrow> fdiv rank depNum;
             distribute exists dampingFactor rank depNum rest
               (newPageRank(depName \<mapsto> lookupRank newPageRank depName + dampingFactor * share)) }
      else distribute exists dampingFactor rank depNum rest newPageRank)"

text \<open>
  The loop over the packages within one iteration: \<open>depNum\<close> counts the tokens of the
  package that are keys of the index, then the rank is distributed.
\<close>

fun spread ::
  "(string \<Rightarrow> bool) \<Rightarrow> real \<Rightarrow> (string \<rightharpoonup> real) \<Rightarrow> (string \<times> string list) list
     \<Rightarrow> (string \<rightharpoonup> real) \<Rightarrow> (string \<rightharpoonup> real) option" where
  "spread exists dampingFactor pageRank [] newPageRank = Some newPageRank"
| "spread exists dampingFactor pageRank ((pkgName, depends) # rest) newPageRank =
     do { let depNum = int (length (filter exists depends));
          newPageRank' \<leftarrow> distribute exists dampingFactor (lookupRank pageRank pkgName) depNum
                            depends newPageRank;
          spread exists dampingFactor pageRank rest newPageRank' }"

text \<open>The loop \<open>for i := 0; i < iterations; i++\<close>, and the whole function.\<close>

fun iterate ::
  "nat \<Rightarrow> real \<Rightarrow> (string \<times> string list) list \<Rightarrow> (string \<rightharpoonup> real) \<Rightarrow> (string \<rightharpoonup> real) option" where
  "iterate 0 dampingFactor graph pageRank = Some pageRank"
| "iterate (Suc i) dampingFactor graph pageRank =
     do { let numPackages = int (length graph);
          newPageRank \<leftarrow> fillRanks (1 - dampingFactor) numPackages (map fst graph) Map.empty;
          newPageRank' \<leftarrow> spread (\<lambda>depName. map_of graph depName \<noteq> None) dampingFactor pageRank
                            graph newPageRank;
          iterate i dampingFactor graph newPageRank' }"

definition calculatePageRank ::
  "(string \<times> string list) list \<Rightarrow> int \<Rightarrow> real \<Rightarrow> (string \<rightharpoonup> real) option" where
  "calculatePageRank graph iterations dampingFactor =
     do { let numPackages = int (length graph);
          pageRank \<leftarrow> fillRanks 1 numPackages (map fst graph) Map.empty;
          iterate (nat iterations) dampingFactor graph pageRank }"

definition alpine_calculatePageRank :: "pkgmap \<Rightarrow> int \<Rightarrow> real \<Rightarrow> (string \<rightharpoonup> real) option" where
  "alpine_calculatePageRank pkgInfoMap iterations dampingFactor =
     calculatePageRank (alpine_graph pkgInfoMap)
       iterations dampingFactor"

definition centos_calculatePageRank ::
  "centos_pkgmap \<Rightarrow> int \<Rightarrow> real \<Rightarrow> (string \<rightharpoonup> real) option" where
  "centos_calculatePageRank PkgInfoMap iterations dampingFactor =
     calculatePageRank (centos_graph PkgInfoMap)
       iterations dampingFactor"

text \<open>
  Persistence. The connection can fail (\<open>GetDatabaseConnection\<close> returns an error), and an
  \<open>INSERT\<close> can fail with a PostgreSQL error that carries an SQL state.
\<close>

datatype db_error = ConnectionError | PqError string

definition isUniqueViolation :: "db_error \<Rightarrow> bool" where
  "isUniqueViolation err = (case err of PqError code \<Rightarrow> code = ''23505'' | ConnectionError \<Rightarrow> False)"

record database =
  available :: bool
  relationships :: "(string \<times> string) list"

text \<open>
  Modelled from the spec: the table \<open><distro>_relationships(frompackage, topackage,
  UNIQUE(frompackage, topackage))\<close>, whose schema is not among the source files. An \<open>INSERT\<close> of
  a pair that the table already holds fails with SQL state \<open>23505\<close>; any other pair is added.
\<close>

definition insert_relationship ::
  "(string \<times> string) list \<Rightarrow> string \<times> string \<Rightarrow> db_error + (string \<times> string) list" where
  "insert_relationship rows r =
     (if r \<in> set rows then Inl (PqError ''23505'') else Inr (rows @ [r]))"

text \<open>
  \<open>storeDependenciesInDatabase\<close>: one \<open>INSERT\<close> per element of \<open>dependencies\<close>, in order, with
  no test on the element; the first error ends the loop and is returned. Rows inserted
  before the error stay in the table.
\<close>

fun storeDependencies_loop ::
  "string \<Rightarrow> string list \<Rightarrow> (string \<times> string) list \<Rightarrow> db_error option \<times> (string \<times> string) list" where
  "storeDependencies_loop pkgName [] rows = (None, rows)"
| "storeDependencies_loop pkgName (dep # rest) rows =
     (case insert_relationship rows (pkgName, dep) of
        Inl err \<Rightarrow> (Some err, rows)
      | Inr rows' \<Rightarrow> storeDependencies_loop pkgName rest rows')"

definition storeDependenciesInDatabase ::
  "database \<Rightarrow> string \<Rightarrow> string list \<Rightarrow> db_error option \<times> database" where
  "storeDependenciesInDatabase db pkgName dependencies =
     (if \<not> available db then (Some ConnectionError, db)
      else (case storeDependencies_loop pkgName dependencies (relationships db) of
              (err, rows) \<Rightarrow> (err, db\<lparr>relationships := rows\<rparr>)))"

text \<open>
  The loop of \<open>Collect\<close> over the index that calls it: a unique violation is skipped
  silently, any other error is printed with the package name, and the loop goes on.
\<close>

fun storeAll :: "(string \<times> string list) list \<Rightarrow> database \<Rightarrow> string list \<Rightarrow> database \<times> string list" where
  "storeAll [] db printed = (db, printed)"
| "storeAll ((pkgName, depends) # rest) db printed =
     (case storeDependenciesInDatabase db pkgName depends of
        (Some err, db') \<Rightarrow>
          (if isUniqueViolation err then storeAll rest db' printed
           else storeAll rest db' (printed @ [pkgName]))
      | (None, db') \<Rightarrow> storeAll rest db' printed)"





section \<open>The git_metrics synchroniser (pkg/gitmetricsync/gitmetricsync.go)\<close>

text \<open>
  The regular expression \<open>https?://github\.com/([^/\s]+/[^/\s]+)\<close> of \<open>syncGitMetrics\<close>. In Go's
  syntax \<open>\s\<close> is tab, line feed, form feed, carriage return or space. At a given start the
  expression matches in at most one way: each \<open>[^/\s]+\<close> is greedy and is followed by a
  character outside its class, so it takes the whole run.
\<close>

definition isReSpace :: "char \<Rightarrow> bool" where
  "isReSpace c = (c = CHR 0x09 \<or> c = CHR 0x0A \<or> c = CHR 0x0C \<or> c = CHR 0x0D \<or> c = CHR 0x20)"

definition segmentChar :: "char \<Rightarrow> bool" where
  "segmentChar c = (c \<noteq> CHR ''/'' \<and> \<not> isReSpace c)"

text \<open>The capture group of a match that starts at the first character of \<open>s\<close>.\<close>

definition matchGithubAt :: "string \<Rightarrow> string option" where
  "matchGithubAt s =
     (let after = (if prefix ''https://github.com/'' s then Some (drop 19 s)
                   else if prefix ''http://github.com/'' s then Some (drop 18 s)
                   else None)
      in case after of
           None \<Rightarrow> None
         | Some r \<Rightarrow>
             (let owner = takeWhile segmentChar r in
              if owner = [] then None
              else (case dropWhile segmentChar r of
                      [] \<Rightarrow> None
                    | c # r' \<Rightarrow>
                        (if c = CHR ''/'' then
                           (let repo = takeWhile segmentChar r' in
                            if repo = [] then None else Some (owner @ ''/'' @ repo))
                         else None))))"

text \<open>\<open>githubRegex.FindStringSubmatch(link)[1]\<close>: the capture group of the leftmost match.\<close>

fun FindGithubSubmatch :: "string \<Rightarrow> string option" where
  "FindGithubSubmatch [] = None"
| "FindGithubSubmatch (c # cs) =
     (case matchGithubAt (c # cs) of
        Some g \<Rightarrow> Some g
      | None \<Rightarrow> FindGithubSubmatch cs)"

text \<open>The body of the first loop: \<open>normalizedLink := "https://github.com/" + matches[1]\<close>.\<close>

definition normalizeLink :: "string \<Rightarrow> string option" where
  "normalizeLink link =
     (case FindGithubSubmatch link of
        Some g \<Rightarrow> Some (''https://github.com/'' @ g)
      | None \<Rightarrow> None)"

text \<open>The set \<open>normalizedLinks\<close> (a \<open>map[string]bool\<close>), as the list of its keys.\<close>

definition normalizeLinks :: "string list \<Rightarrow> string list" where
  "normalizeLinks gitLinks =
     foldl (\<lambda>normalizedLinks link.
              case normalizeLink link of
                Some normalizedLink \<Rightarrow> List.insert normalizedLink normalizedLinks
              | None \<Rightarrow> normalizedLinks)
       [] gitLinks"

text \<open>
  \<open>syncGitMetrics\<close> on the table \<open>git_metrics\<close>, a list of rows \<open>(git_link, depsdev_count)\<close>:
  rows whose link is not a normalized link are deleted, and a row is inserted for every
  normalized link the table did not hold. \<open>queryDepsDev\<close> asks a remote service and is a
  parameter. A failing statement is logged and the loop goes on; the model has no failing
  statement.
\<close>

definition syncGitMetrics ::
  "(string \<Rightarrow> string \<Rightarrow> string \<Rightarrow> int) \<Rightarrow> (string \<times> int) list \<Rightarrow> string list \<Rightarrow> (string \<times> int) list" where
  "syncGitMetrics queryDepsDev git_metrics gitLinks =
     (let normalizedLinks = normalizeLinks gitLinks;
          dbLinks = map fst git_metrics;
          kept = filter (\<lambda>(link, depCount). link \<in> set normalizedLinks) git_metrics
      in foldl (\<lambda>table link.
                  if link \<in> set dbLinks then table
                  else (let parts = Split link ''/'' in
                        if length parts \<ge> 5
                        then table @ [(link, queryDepsDev ''github'' (parts ! 3) (parts ! 4))]
                        else table))
           kept normalizedLinks)"

section \<open>The deps.dev collector (package \<open>collector_depsdev\<close>, in the file alpine.go)\<close>

text \<open>
  The loop body of \<open>Run\<close> up to the call of \<open>getProjectType\<close>: the owner and the repository
  name it derives from a link of \<open>git_metrics\<close>. Here a suffix \<open>.git\<close> of the repository name
  is removed; the link itself, the key of the row, is left as it is.
\<close>

definition depsdev_target :: "string \<Rightarrow> (string \<times> string) option" where
  "depsdev_target link =
     (if HasPrefix link ''https://github.com/'' then
        (let parts = Split link ''/'' in
         if length parts \<ge> 5 then
           (let owner = parts ! 3; repo = parts ! 4;
                repo' = (if HasSuffix repo ''.git'' then TrimSuffix repo ''.git'' else repo)
            in Some (owner, repo'))
         else None)
      else None)"










section \<open>GitHub statistics (package githubmetrics, in the file main.go)\<close>











section \<open>Scenarios\<close>

text \<open>
  The index \<open>{A depends X}\<close> with \<open>X\<close> not in the index (scenario S3 of the specification),
  and the cycle \<open>{A depends B, B depends A}\<close> (scenario S2), for both collectors.
\<close>

definition S3_alpine :: pkgmap where
  "S3_alpine = [(''A'', zero_PackageInfo\<lparr>PackageName := ''A'', Depends := [''X'']\<rparr>)]"

definition S3_centos :: centos_pkgmap where
  "S3_centos = [(''A'', zero_centos_PackageInfo\<lparr>c_Name := ''A'', c_Depends := [''X'']\<rparr>)]"

definition cycle_alpine :: pkgmap where
  "cycle_alpine = [(''A'', zero_PackageInfo\<lparr>PackageName := ''A'', Depends := [''B'']\<rparr>),
                   (''B'', zero_PackageInfo\<lparr>PackageName := ''B'', Depends := [''A'']\<rparr>)]"

definition cycle_centos :: centos_pkgmap where
  "cycle_centos = [(''A'', zero_centos_PackageInfo\<lparr>c_Name := ''A'', c_Depends := [''B'']\<rparr>),
                   (''B'', zero_centos_PackageInfo\<lparr>c_Name := ''B'', c_Depends := [''A'']\<rparr>)]"

section \<open>Notions used in the statements\<close>




text \<open>
  The sum of the ranks over the keys of the index, ranks that are not negative, and an
  index without dangling packages (a package is dangling when none of its tokens is a key).
\<close>

definition totalRank :: "string list \<Rightarrow> (string \<rightharpoonup> real) \<Rightarrow> real" where
  "totalRank ks pageRank = (\<Sum>k\<leftarrow>ks. lookupRank pageRank k)"

definition nonnegRanks :: "(string \<rightharpoonup> real) \<Rightarrow> bool" where
  "nonnegRanks pageRank = (\<forall>k. 0 \<le> lookupRank pageRank k)"

definition no_dangling :: "(string \<times> string list) list \<Rightarrow> bool" where
  "no_dangling graph =
     list_all (\<lambda>(p, ds). filter (\<lambda>depName. map_of graph depName \<noteq> None) ds \<noteq> []) graph"

section \<open>Dependency tokens of the Alpine index\<close>

lemma Index_absent: "c \<notin> set s \<Longrightarrow> Index s [c] = -1"
  by (induction s) auto

text \<open>
  C2. The Alpine parser cuts a dependency token through its first \<open>:\<close> and from its first
  \<open>=\<close>; it knows no other constraint operator. The line \<open>D:libc:foo=1.2 libc:foo>=1.2\<close>
  therefore yields the tokens \<open>foo\<close> and \<open>foo>\<close>: the second is not the bare package name.
\<close>

theorem normalizeDep_keeps_gt:
  "Depends (parseEntry ''P:a\<newline>D:libc:foo=1.2 libc:foo>=1.2'') = [''foo'', ''foo>'']"
  by (simp add: parseEntry_def parseLine_def Split.simps zero_PackageInfo_def Fields_def
      normalizeDep_def isSpace_def)

section \<open>Description width\<close>

lemma setDescription_width: "length (c_Description (setDescription pkgInfo d)) \<le> 255"
  by (simp add: setDescription_def)

lemma setDescription_300:
  "length d = 300 \<Longrightarrow> length (c_Description (setDescription pkgInfo d)) = 254"
  by (simp add: setDescription_def)

lemma setDescription_255:
  "length d = 255 \<Longrightarrow> c_Description (setDescription pkgInfo d) = d"
  by (simp add: setDescription_def)

lemma parseLine_description: "Description (parseLine pkg (''T:'' @ d)) = d"
  by (simp add: parseLine_def)

text \<open>
  C5. The Alpine parser stores the text of a \<open>T:\<close> line as it is: a description of 300
  characters is kept with all 300 characters, where the CentOS parser cuts it to 254.
\<close>

theorem alpine_description_not_truncated:
  "length (Description (parseEntry (''P:a\<newline>T:'' @ replicate 300 CHR ''x''))) = 300"
  by (simp add: parseEntry_def parseLine_def Split.simps zero_PackageInfo_def Index_absent)

section \<open>The parsed index\<close>

text \<open>
  The index \<open>getPackageList\<close> returns stores every record under its own name and has no key
  twice; the CentOS index has no key twice either.
\<close>

lemma set_update_sub: "set (AList.update k v al) \<subseteq> insert (k, v) (set al)"
  by (induction al) auto

lemma addEntry_invariants:
  assumes "keys_are_names packageList" and "distinct (map fst packageList)"
  shows "keys_are_names (addEntry packageList entry)"
    and "distinct (map fst (addEntry packageList entry))"
proof -
  show "keys_are_names (addEntry packageList entry)"
    using assms(1) set_update_sub[of "PackageName (parseEntry entry)" "parseEntry entry" packageList]
    by (auto simp: addEntry_def Let_def keys_are_names_def list_all_iff)
  show "distinct (map fst (addEntry packageList entry))"
    using assms(2) by (simp add: addEntry_def Let_def distinct_update)
qed

lemma getPackageList_invariants:
  "keys_are_names (getPackageList data) \<and> distinct (map fst (getPackageList data))"
proof -
  have "keys_are_names (foldl addEntry m entries) \<and> distinct (map fst (foldl addEntry m entries))"
    if "keys_are_names m" "distinct (map fst m)" for m entries
    using that
    by (induction entries arbitrary: m) (simp_all add: addEntry_invariants)
  from this[of "[]"] show ?thesis
    by (simp add: getPackageList_def keys_are_names_def)
qed

lemma getDependencies_loop_distinct:
  "getDependencies_loop m items = Inr m' \<Longrightarrow> distinct (map fst m) \<Longrightarrow> distinct (map fst m')"
  by (induction m items rule: getDependencies_loop.induct)
    (auto simp: distinct_update split: if_splits sum.splits)

section \<open>The depth-first closure\<close>

lemma keys_are_names_lookup:
  "keys_are_names packages \<Longrightarrow> map_of packages k = Some pkg \<Longrightarrow> PackageName pkg = k"
  by (auto simp: keys_are_names_def list_all_iff dest: map_of_SomeD)

lemma GetAll_mono:
  "visited \<subseteq> fst (GetAllDependencies pkg packages visited deps)"
  "visited \<subseteq> fst (GetAllDependencies_loop ds packages visited deps)"
  using GetAllDependencies_visited_grows GetAllDependencies_dom_all by blast+

lemma GetAll_set_deps:
  "set deps = visited \<Longrightarrow> distinct deps \<Longrightarrow>
     set (snd (GetAllDependencies pkg packages visited deps))
       = fst (GetAllDependencies pkg packages visited deps)
     \<and> distinct (snd (GetAllDependencies pkg packages visited deps))"
  "set deps = visited \<Longrightarrow> distinct deps \<Longrightarrow>
     set (snd (GetAllDependencies_loop ds packages visited deps))
       = fst (GetAllDependencies_loop ds packages visited deps)
     \<and> distinct (snd (GetAllDependencies_loop ds packages visited deps))"
proof (induction pkg packages visited deps and ds packages visited deps
    rule: GetAllDependencies_GetAllDependencies_loop.induct)
  case (1 pkg packages visited deps)
  then show ?case by (simp add: GetAllDependencies.simps)
next
  case (2 packages visited deps)
  then show ?case by simp
next
  case (3 depName rest packages visited deps)
  show ?case
  proof (cases "map_of packages depName")
    case None
    with 3 show ?thesis by simp
  next
    case (Some depPkg)
    obtain v' d' where r: "GetAllDependencies depPkg packages visited deps = (v', d')"
      by (cases "GetAllDependencies depPkg packages visited deps")
    from 3(2)[OF Some] 3(4,5) r have "set d' = v'" "distinct d'" by auto
    with 3(3)[OF Some r[symmetric]] Some r show ?thesis by simp
  qed
qed

lemma alpine_edges_iff:
  "map_of packages x = Some pkg \<Longrightarrow>
     alpine_edges packages `` {x} = {y \<in> set (Depends pkg). map_of packages y \<noteq> None}"
  by (auto simp: alpine_edges_def)

lemma GetAll_sound:
  "keys_are_names packages \<Longrightarrow> map_of packages (PackageName pkg) = Some pkg \<Longrightarrow>
     fst (GetAllDependencies pkg packages visited deps)
       \<subseteq> visited \<union> (alpine_edges packages)\<^sup>* `` {PackageName pkg}"
  "keys_are_names packages \<Longrightarrow>
     fst (GetAllDependencies_loop ds packages visited deps)
       \<subseteq> visited \<union> (alpine_edges packages)\<^sup>* `` {y \<in> set ds. map_of packages y \<noteq> None}"
proof (induction pkg packages visited deps and ds packages visited deps
    rule: GetAllDependencies_GetAllDependencies_loop.induct)
  case (1 pkg packages visited deps)
  show ?case
  proof (cases "PackageName pkg \<in> visited")
    case True
    then show ?thesis by (simp add: GetAllDependencies.simps)
  next
    case False
    let ?n = "PackageName pkg"
    let ?E = "alpine_edges packages"
    have step: "?E\<^sup>* `` {y \<in> set (Depends pkg). map_of packages y \<noteq> None} \<subseteq> ?E\<^sup>* `` {?n}"
    proof -
      have "{y \<in> set (Depends pkg). map_of packages y \<noteq> None} = ?E `` {?n}"
        using alpine_edges_iff[OF 1(3)] by simp
      then show ?thesis by (auto intro: converse_rtrancl_into_rtrancl)
    qed
    from 1(1)[OF False 1(2)] step False show ?thesis
      by (auto simp: GetAllDependencies.simps)
  qed
next
  case (2 packages visited deps)
  then show ?case by simp
next
  case (3 depName rest packages visited deps)
  show ?case
  proof (cases "map_of packages depName")
    case None
    with 3(1)[OF None 3(4)] show ?thesis by auto
  next
    case (Some depPkg)
    obtain v' d' where r: "GetAllDependencies depPkg packages visited deps = (v', d')"
      by (cases "GetAllDependencies depPkg packages visited deps")
    have nm: "PackageName depPkg = depName"
      using keys_are_names_lookup[OF 3(4) Some] .
    from 3(2)[OF Some 3(4)] nm Some r
    have a: "v' \<subseteq> visited \<union> (alpine_edges packages)\<^sup>* `` {depName}" by simp
    from 3(3)[OF Some r[symmetric] 3(4)]
    have b: "fst (GetAllDependencies_loop rest packages v' d')
      \<subseteq> v' \<union> (alpine_edges packages)\<^sup>* `` {y \<in> set rest. map_of packages y \<noteq> None}" .
    have "{y \<in> set (depName # rest). map_of packages y \<noteq> None}
        = insert depName {y \<in> set rest. map_of packages y \<noteq> None}"
      using Some by auto
    then have c: "(alpine_edges packages)\<^sup>* `` {y \<in> set (depName # rest). map_of packages y \<noteq> None}
        = (alpine_edges packages)\<^sup>* `` {depName}
          \<union> (alpine_edges packages)\<^sup>* `` {y \<in> set rest. map_of packages y \<noteq> None}"
      by (simp add: Image_def) blast
    have eq: "GetAllDependencies_loop (depName # rest) packages visited deps
        = GetAllDependencies_loop rest packages v' d'"
      using Some r by simp
    show ?thesis unfolding c eq using a b by blast
  qed
qed

lemma GetAll_closed:
  "keys_are_names packages \<Longrightarrow> map_of packages (PackageName pkg) = Some pkg \<Longrightarrow>
     PackageName pkg \<in> fst (GetAllDependencies pkg packages visited deps)
     \<and> (\<forall>x \<in> fst (GetAllDependencies pkg packages visited deps) - visited.
           alpine_edges packages `` {x} \<subseteq> fst (GetAllDependencies pkg packages visited deps))"
  "keys_are_names packages \<Longrightarrow>
     {y \<in> set ds. map_of packages y \<noteq> None}
        \<subseteq> fst (GetAllDependencies_loop ds packages visited deps)
     \<and> (\<forall>x \<in> fst (GetAllDependencies_loop ds packages visited deps) - visited.
           alpine_edges packages `` {x}
             \<subseteq> fst (GetAllDependencies_loop ds packages visited deps))"
proof (induction pkg packages visited deps and ds packages visited deps
    rule: GetAllDependencies_GetAllDependencies_loop.induct)
  case (1 pkg packages visited deps)
  show ?case
  proof (cases "PackageName pkg \<in> visited")
    case True
    then show ?thesis by (simp add: GetAllDependencies.simps)
  next
    case False
    let ?n = "PackageName pkg"
    let ?r = "GetAllDependencies_loop (Depends pkg) packages (insert ?n visited) (deps @ [?n])"
    have eq: "GetAllDependencies pkg packages visited deps = ?r"
      using False by (simp add: GetAllDependencies.simps)
    have mono: "insert ?n visited \<subseteq> fst ?r" by (rule GetAll_mono)
    from 1(1)[OF False 1(2)]
    have ih: "{y \<in> set (Depends pkg). map_of packages y \<noteq> None} \<subseteq> fst ?r"
      "\<forall>x \<in> fst ?r - insert ?n visited. alpine_edges packages `` {x} \<subseteq> fst ?r"
      by blast+
    have "alpine_edges packages `` {?n} \<subseteq> fst ?r"
      using ih(1) alpine_edges_iff[OF 1(3)] by simp
    with ih(2) mono show ?thesis unfolding eq by blast
  qed
next
  case (2 packages visited deps)
  then show ?case by simp
next
  case (3 depName rest packages visited deps)
  show ?case
  proof (cases "map_of packages depName")
    case None
    with 3(1)[OF None 3(4)] show ?thesis by auto
  next
    case (Some depPkg)
    obtain v' d' where r: "GetAllDependencies depPkg packages visited deps = (v', d')"
      by (cases "GetAllDependencies depPkg packages visited deps")
    let ?r = "GetAllDependencies_loop rest packages v' d'"
    have eq: "GetAllDependencies_loop (depName # rest) packages visited deps = ?r"
      using Some r by simp
    have nm: "PackageName depPkg = depName"
      using keys_are_names_lookup[OF 3(4) Some] .
    from 3(2)[OF Some 3(4)] nm Some r
    have a: "depName \<in> v'" "\<forall>x \<in> v' - visited. alpine_edges packages `` {x} \<subseteq> v'"
      by simp_all
    from 3(3)[OF Some r[symmetric] 3(4)]
    have b: "{y \<in> set rest. map_of packages y \<noteq> None} \<subseteq> fst ?r"
      "\<forall>x \<in> fst ?r - v'. alpine_edges packages `` {x} \<subseteq> fst ?r"
      by blast+
    have mono: "v' \<subseteq> fst ?r" by (rule GetAll_mono)
    from a b mono show ?thesis unfolding eq by (simp add: subset_iff) blast
  qed
qed

lemma closed_contains_reachable:
  assumes "x \<in> S" and "\<forall>y \<in> S. E `` {y} \<subseteq> S"
  shows "E\<^sup>* `` {x} \<subseteq> S"
proof
  fix z assume "z \<in> E\<^sup>* `` {x}"
  then have "(x, z) \<in> E\<^sup>*" by simp
  then show "z \<in> S"
    by (induction rule: rtrancl_induct) (use assms in auto)
qed

lemma alpine_closure_reachable:
  assumes "keys_are_names packages" and "map_of packages p = Some pkg"
  shows "set (alpine_closure packages pkg) = (alpine_edges packages)\<^sup>* `` {p}"
proof -
  have nm: "PackageName pkg = p" using keys_are_names_lookup[OF assms] .
  with assms have look: "map_of packages (PackageName pkg) = Some pkg" by simp
  let ?r = "GetAllDependencies pkg packages {} []"
  have s: "set (snd ?r) = fst ?r" using GetAll_set_deps(1)[of "[]" "{}" pkg packages] by simp
  have "fst ?r \<subseteq> (alpine_edges packages)\<^sup>* `` {p}"
    using GetAll_sound(1)[OF assms(1) look, of "{}" "[]"] nm by simp
  moreover have "(alpine_edges packages)\<^sup>* `` {p} \<subseteq> fst ?r"
    using GetAll_closed(1)[OF assms(1) look, of "{}" "[]"] nm
    by (intro closed_contains_reachable) auto
  ultimately show ?thesis by (simp add: alpine_closure_def s)
qed

lemma centos_edges_Some: "map_of m x = Some pkg \<Longrightarrow> centos_edges m `` {x} = set (c_Depends pkg)"
  by (auto simp: centos_edges_def)

lemma centos_edges_None: "map_of m x = None \<Longrightarrow> centos_edges m `` {x} = {}"
  by (auto simp: centos_edges_def)

lemma getAllDep_mono:
  "visited \<subseteq> fst (getAllDep m n visited deps)"
  "visited \<subseteq> fst (getAllDep_loop m ds visited deps)"
  using getAllDep_visited_grows getAllDep_dom_all by blast+

lemma getAllDep_set_deps:
  "set deps = visited \<Longrightarrow> distinct deps \<Longrightarrow>
     set (snd (getAllDep m n visited deps)) = fst (getAllDep m n visited deps)
     \<and> distinct (snd (getAllDep m n visited deps))"
  "set deps = visited \<Longrightarrow> distinct deps \<Longrightarrow>
     set (snd (getAllDep_loop m ds visited deps)) = fst (getAllDep_loop m ds visited deps)
     \<and> distinct (snd (getAllDep_loop m ds visited deps))"
proof (induction m n visited deps and m ds visited deps rule: getAllDep_getAllDep_loop.induct)
  case (1 m n visited deps)
  then show ?case by (auto simp: getAllDep.simps split: option.splits)
next
  case (2 m visited deps)
  then show ?case by simp
next
  case (3 m depName rest visited deps)
  obtain v' d' where r: "getAllDep m depName visited deps = (v', d')"
    by (cases "getAllDep m depName visited deps")
  from 3(1)[OF 3(3,4)] r have "set d' = v'" "distinct d'" by auto
  with 3(2)[OF r[symmetric]] r show ?case by simp
qed

lemma getAllDep_sound:
  "fst (getAllDep m n visited deps) \<subseteq> visited \<union> (centos_edges m)\<^sup>* `` {n}"
  "fst (getAllDep_loop m ds visited deps) \<subseteq> visited \<union> (centos_edges m)\<^sup>* `` set ds"
proof (induction m n visited deps and m ds visited deps rule: getAllDep_getAllDep_loop.induct)
  case (1 m n visited deps)
  show ?case
  proof (cases "n \<in> visited")
    case True
    then show ?thesis by (simp add: getAllDep.simps)
  next
    case False
    show ?thesis
    proof (cases "map_of m n")
      case None
      with False show ?thesis by (simp add: getAllDep.simps)
    next
      case (Some pkg)
      have "(centos_edges m)\<^sup>* `` set (c_Depends pkg) \<subseteq> (centos_edges m)\<^sup>* `` {n}"
        using centos_edges_Some[OF Some] by (auto intro: converse_rtrancl_into_rtrancl)
      with 1[OF False Some] False Some show ?thesis
        by (auto simp: getAllDep.simps)
    qed
  qed
next
  case (2 m visited deps)
  then show ?case by simp
next
  case (3 m depName rest visited deps)
  obtain v' d' where r: "getAllDep m depName visited deps = (v', d')"
    by (cases "getAllDep m depName visited deps")
  from 3(1) r have a: "v' \<subseteq> visited \<union> (centos_edges m)\<^sup>* `` {depName}" by simp
  from 3(2)[OF r[symmetric]]
  have b: "fst (getAllDep_loop m rest v' d') \<subseteq> v' \<union> (centos_edges m)\<^sup>* `` set rest" .
  have c: "(centos_edges m)\<^sup>* `` set (depName # rest)
      = (centos_edges m)\<^sup>* `` {depName} \<union> (centos_edges m)\<^sup>* `` set rest"
    by (simp add: Image_def) blast
  have eq: "getAllDep_loop m (depName # rest) visited deps = getAllDep_loop m rest v' d'"
    using r by simp
  show ?case unfolding c eq using a b by blast
qed

lemma getAllDep_closed:
  "n \<in> fst (getAllDep m n visited deps)
     \<and> (\<forall>x \<in> fst (getAllDep m n visited deps) - visited.
           centos_edges m `` {x} \<subseteq> fst (getAllDep m n visited deps))"
  "set ds \<subseteq> fst (getAllDep_loop m ds visited deps)
     \<and> (\<forall>x \<in> fst (getAllDep_loop m ds visited deps) - visited.
           centos_edges m `` {x} \<subseteq> fst (getAllDep_loop m ds visited deps))"
proof (induction m n visited deps and m ds visited deps rule: getAllDep_getAllDep_loop.induct)
  case (1 m n visited deps)
  show ?case
  proof (cases "n \<in> visited")
    case True
    then show ?thesis by (simp add: getAllDep.simps)
  next
    case False
    show ?thesis
    proof (cases "map_of m n")
      case None
      with False show ?thesis by (auto simp: getAllDep.simps centos_edges_def)
    next
      case (Some pkg)
      let ?r = "getAllDep_loop m (c_Depends pkg) (insert n visited) (deps @ [n])"
      have eq: "getAllDep m n visited deps = ?r"
        using False Some by (simp add: getAllDep.simps)
      have mono: "insert n visited \<subseteq> fst ?r" by (rule getAllDep_mono)
      from 1[OF False Some]
      have ih: "set (c_Depends pkg) \<subseteq> fst ?r"
        "\<forall>x \<in> fst ?r - insert n visited. centos_edges m `` {x} \<subseteq> fst ?r"
        by blast+
      have "centos_edges m `` {n} \<subseteq> fst ?r"
        using ih(1) centos_edges_Some[OF Some] by simp
      with ih(2) mono show ?thesis unfolding eq by blast
    qed
  qed
next
  case (2 m visited deps)
  then show ?case by simp
next
  case (3 m depName rest visited deps)
  obtain v' d' where r: "getAllDep m depName visited deps = (v', d')"
    by (cases "getAllDep m depName visited deps")
  let ?r = "getAllDep_loop m rest v' d'"
  have eq: "getAllDep_loop m (depName # rest) visited deps = ?r"
    using r by simp
  from 3(1) r
  have a: "depName \<in> v'" "\<forall>x \<in> v' - visited. centos_edges m `` {x} \<subseteq> v'"
    by simp_all
  from 3(2)[OF r[symmetric]]
  have b: "set rest \<subseteq> fst ?r" "\<forall>x \<in> fst ?r - v'. centos_edges m `` {x} \<subseteq> fst ?r"
    by blast+
  have mono: "v' \<subseteq> fst ?r" by (rule getAllDep_mono)
  from a b mono show ?case unfolding eq by (simp add: subset_iff) blast
qed

lemma centos_closure_reachable:
  "set (centos_closure m p) = (centos_edges m)\<^sup>* `` {p}"
proof -
  let ?r = "getAllDep m p {} []"
  have s: "set (snd ?r) = fst ?r" using getAllDep_set_deps(1)[of "[]" "{}" m p] by simp
  have "fst ?r \<subseteq> (centos_edges m)\<^sup>* `` {p}"
    using getAllDep_sound(1)[of m p "{}" "[]"] by simp
  moreover have "(centos_edges m)\<^sup>* `` {p} \<subseteq> fst ?r"
    using getAllDep_closed(1)[of p m "{}" "[]"]
    by (intro closed_contains_reachable) auto
  ultimately show ?thesis by (simp add: centos_closure_def s)
qed

lemma centos_reach_in_index:
  assumes "(p, y) \<in> (centos_edges m)\<^sup>*" and "map_of m y \<noteq> None"
  shows "(p, y) \<in> (centos_index_edges m)\<^sup>*"
  using assms
proof (induction rule: rtrancl_induct)
  case base
  then show ?case by simp
next
  case (step y z)
  from step(2) have "map_of m y \<noteq> None" by (auto simp: centos_edges_def)
  with step have "(p, y) \<in> (centos_index_edges m)\<^sup>*" by simp
  moreover from step(2,4) have "(y, z) \<in> centos_index_edges m"
    by (auto simp: centos_edges_def centos_index_edges_def)
  ultimately show ?case by (rule rtrancl_into_rtrancl)
qed

lemma centos_index_edges_sub: "centos_index_edges m \<subseteq> centos_edges m"
  by (auto simp: centos_edges_def centos_index_edges_def)

lemma centos_closure_in_index:
  assumes "map_of m p \<noteq> None"
  shows "{y \<in> set (centos_closure m p). map_of m y \<noteq> None} = (centos_index_edges m)\<^sup>* `` {p}"
proof -
  have "(centos_index_edges m)\<^sup>* \<subseteq> (centos_edges m)\<^sup>*"
    by (rule rtrancl_mono) (rule centos_index_edges_sub)
  moreover have "map_of m y \<noteq> None" if "(p, y) \<in> (centos_index_edges m)\<^sup>*" for y
    using that assms by (induction rule: rtrancl_induct) (auto simp: centos_index_edges_def)
  ultimately show ?thesis
    unfolding centos_closure_reachable using centos_reach_in_index[of p _ m] by auto
qed

section \<open>Termination of the closure, no vertex twice\<close>

text \<open>
  C9. For every index and every start vertex, cyclic or not, the depth-first traversal of
  both collectors terminates (the start call lies in the domain on which the recursion is
  well-founded; in fact every call does), and the closure list it returns has no vertex
  twice. A list is finite.
\<close>

theorem closure_terminates_distinct:
  "GetAllDependencies_GetAllDependencies_loop_dom (Inl (pkgInfo, pkgInfoMap, {}, []))
   \<and> distinct (alpine_closure pkgInfoMap pkgInfo)
   \<and> getAllDep_getAllDep_loop_dom (Inl (PkgInfoMap, pkgName, {}, []))
   \<and> distinct (centos_closure PkgInfoMap pkgName)"
  using GetAllDependencies_dom_all getAllDep_dom_all
    GetAll_set_deps(1)[of "[]" "{}" pkgInfo pkgInfoMap]
    getAllDep_set_deps(1)[of "[]" "{}" PkgInfoMap pkgName]
  by (simp add: alpine_closure_def centos_closure_def)

theorem closure_terminates_distinct_witness:
  "GetAllDependencies_GetAllDependencies_loop_dom
     (Inl (zero_PackageInfo\<lparr>PackageName := ''A'', Depends := [''B'']\<rparr>, cycle_alpine, {}, []))
   \<and> distinct (alpine_closure cycle_alpine (zero_PackageInfo\<lparr>PackageName := ''A'', Depends := [''B'']\<rparr>))
   \<and> alpine_closure cycle_alpine (zero_PackageInfo\<lparr>PackageName := ''A'', Depends := [''B'']\<rparr>) = [''A'', ''B'']
   \<and> getAllDep_getAllDep_loop_dom (Inl (cycle_centos, ''A'', {}, []))
   \<and> distinct (centos_closure cycle_centos ''A'')
   \<and> centos_closure cycle_centos ''A'' = [''A'', ''B'']"
  using closure_terminates_distinct[of "zero_PackageInfo\<lparr>PackageName := ''A'', Depends := [''B'']\<rparr>"
      cycle_alpine cycle_centos "''A''"]
  by (simp add: alpine_closure_def centos_closure_def cycle_alpine_def cycle_centos_def
      zero_PackageInfo_def zero_centos_PackageInfo_def GetAllDependencies.simps getAllDep.simps)

section \<open>The closure is the reachable set\<close>

lemma lookupCount_empty: "lookupCount Map.empty k = 0"
  by (simp add: lookupCount_def)

lemma lookupCount_increment:
  "lookupCount (increment cm d) k = lookupCount cm k + (if d = k then 1 else 0)"
  by (simp add: increment_def lookupCount_def)

lemma lookupCount_foldl_increment:
  "lookupCount (foldl increment cm deps) k = lookupCount cm k + int (count_list deps k)"
  by (induction deps arbitrary: cm) (auto simp: lookupCount_increment)

lemma lookupCount_foldl_closures:
  "lookupCount (foldl (\<lambda>cm (pkgName, deps). foldl increment cm deps) cm dm) k
     = lookupCount cm k + (\<Sum>(pkgName, deps) \<leftarrow> dm. int (count_list deps k))"
  by (induction dm arbitrary: cm) (auto simp: lookupCount_foldl_increment)

lemma lookupCount_countMap:
  "lookupCount (countMap dm) k = (\<Sum>(pkgName, deps) \<leftarrow> dm. int (count_list deps k))"
  by (simp add: countMap_def lookupCount_foldl_closures lookupCount_empty)

lemma countMap_ge_1:
  assumes "(p, deps) \<in> set dm" and "k \<in> set deps"
  shows "1 \<le> lookupCount (countMap dm) k"
proof -
  let ?f = "\<lambda>(pkgName :: string, deps). int (count_list deps k)"
  have "?f (p, deps) \<in> set (map ?f dm)" using assms(1) by force
  moreover have "\<And>x. x \<in> set (map ?f dm) \<Longrightarrow> 0 \<le> x" by auto
  ultimately have "?f (p, deps) \<le> sum_list (map ?f dm)"
    by (rule member_le_sum_list)
  moreover have "1 \<le> ?f (p, deps)"
    using assms(2) count_list_0_iff[of deps k] by (cases "count_list deps k") auto
  ultimately show ?thesis by (simp add: lookupCount_countMap)
qed

lemma countMap_distinct:
  assumes "\<forall>(p, deps) \<in> set dm. distinct deps"
  shows "lookupCount (countMap dm) k = int (length (filter (\<lambda>(p, deps). k \<in> set deps) dm))"
  unfolding lookupCount_countMap using assms
proof (induction dm)
  case Nil
  then show ?case by simp
next
  case (Cons a dm)
  obtain p deps where a: "a = (p, deps)" by (cases a)
  with Cons.prems have "distinct deps" by simp
  then have "count_list deps k = (if k \<in> set deps then 1 else 0)"
    by (induction deps) auto
  with Cons a show ?case by simp
qed

lemma alpine_closure_self: "PackageName pkgInfo \<in> set (alpine_closure pkgInfoMap pkgInfo)"
  using GetAll_mono(2)[of "{PackageName pkgInfo}" "Depends pkgInfo" pkgInfoMap "[PackageName pkgInfo]"]
    GetAll_set_deps(1)[of "[]" "{}" pkgInfo pkgInfoMap]
  by (simp add: alpine_closure_def GetAllDependencies.simps)

lemma centos_closure_self: "p \<in> set (centos_closure m p)"
  by (simp add: centos_closure_reachable)

lemma alpine_dependsCount_ge_1:
  assumes "keys_are_names pkgInfoMap" and "map_of pkgInfoMap p = Some pkgInfo"
  shows "1 \<le> alpine_dependsCount pkgInfoMap p"
proof -
  have "(p, pkgInfo) \<in> set pkgInfoMap" using assms(2) by (rule map_of_SomeD)
  then have "(p, alpine_closure pkgInfoMap pkgInfo) \<in> set (depMap pkgInfoMap)"
    by (force simp: depMap_def)
  moreover have "p \<in> set (alpine_closure pkgInfoMap pkgInfo)"
    using alpine_closure_self[of pkgInfo pkgInfoMap] keys_are_names_lookup[OF assms] by simp
  ultimately show ?thesis
    unfolding alpine_dependsCount_def by (rule countMap_ge_1)
qed

lemma centos_dependsCount_ge_1:
  assumes "map_of PkgInfoMap q \<noteq> None"
  shows "1 \<le> centos_dependsCount PkgInfoMap q"
proof -
  from assms obtain pkgInfo where "(q, pkgInfo) \<in> set PkgInfoMap"
    by (auto dest: map_of_SomeD)
  then have "(q, centos_closure PkgInfoMap q) \<in> set (centos_depMap PkgInfoMap)"
    by (force simp: centos_depMap_def)
  then show ?thesis
    unfolding centos_dependsCount_def using centos_closure_self by (rule countMap_ge_1)
qed

text \<open>
  C4, as the specification states it, fails for CentOS: on the index \<open>{A depends X}\<close>,
  \<open>getAllDep\<close> appends \<open>X\<close> before it looks \<open>X\<close> up, so the closure of \<open>A\<close> is \<open>[A, X]\<close>.
\<close>

theorem centos_closure_counterexample:
  "centos_closure S3_centos ''A'' = [''A'', ''X''] \<and> ''X'' \<notin> fst ` set S3_centos"
  by (simp add: centos_closure_def S3_centos_def zero_centos_PackageInfo_def getAllDep.simps)

text \<open>
  C4, amended. For every package \<open>p\<close> of the index: the Alpine closure of \<open>p\<close> is exactly the
  set of vertices reachable from \<open>p\<close> along dependency tokens that are keys of the index; it
  contains \<open>p\<close> and lies within the index. The CentOS closure of \<open>q\<close> is the set reachable
  along all dependency tokens, so it may hold names outside the index; its part inside
  the index is exactly the set reachable inside the index, and it contains \<open>q\<close>. In both
  collectors the count of a package of the index is at least \<open>1\<close>.
\<close>

theorem closure_reachable_in_index:
  "(keys_are_names pkgInfoMap \<and> map_of pkgInfoMap p = Some pkgInfo \<longrightarrow>
      set (alpine_closure pkgInfoMap pkgInfo) = (alpine_edges pkgInfoMap)\<^sup>* `` {p}
      \<and> p \<in> set (alpine_closure pkgInfoMap pkgInfo)
      \<and> set (alpine_closure pkgInfoMap pkgInfo) \<subseteq> fst ` set pkgInfoMap
      \<and> 1 \<le> alpine_dependsCount pkgInfoMap p)
   \<and> (map_of PkgInfoMap q \<noteq> None \<longrightarrow>
      {y \<in> set (centos_closure PkgInfoMap q). map_of PkgInfoMap y \<noteq> None}
         = (centos_index_edges PkgInfoMap)\<^sup>* `` {q}
      \<and> set (centos_closure PkgInfoMap q) = (centos_edges PkgInfoMap)\<^sup>* `` {q}
      \<and> q \<in> set (centos_closure PkgInfoMap q)
      \<and> 1 \<le> centos_dependsCount PkgInfoMap q)"
proof (intro conjI impI; (elim conjE)?)
  assume a: "keys_are_names pkgInfoMap" "map_of pkgInfoMap p = Some pkgInfo"
  show r: "set (alpine_closure pkgInfoMap pkgInfo) = (alpine_edges pkgInfoMap)\<^sup>* `` {p}"
    using a by (rule alpine_closure_reachable)
  show "p \<in> set (alpine_closure pkgInfoMap pkgInfo)" unfolding r by simp
  show "1 \<le> alpine_dependsCount pkgInfoMap p" using a by (rule alpine_dependsCount_ge_1)
  have "y \<in> fst ` set pkgInfoMap" if "(p, y) \<in> (alpine_edges pkgInfoMap)\<^sup>*" for y
    using that
  proof (induction rule: rtrancl_induct)
    case base
    from a(2) show ?case by (force dest: map_of_SomeD)
  next
    case (step y z)
    then show ?case by (auto simp: alpine_edges_def dest: map_of_SomeD intro: rev_image_eqI)
  qed
  then show "set (alpine_closure pkgInfoMap pkgInfo) \<subseteq> fst ` set pkgInfoMap"
    unfolding r by auto
next
  assume a: "map_of PkgInfoMap q \<noteq> None"
  show "{y \<in> set (centos_closure PkgInfoMap q). map_of PkgInfoMap y \<noteq> None}
         = (centos_index_edges PkgInfoMap)\<^sup>* `` {q}"
    using a by (rule centos_closure_in_index)
  show "set (centos_closure PkgInfoMap q) = (centos_edges PkgInfoMap)\<^sup>* `` {q}"
    by (rule centos_closure_reachable)
  show "q \<in> set (centos_closure PkgInfoMap q)" by (rule centos_closure_self)
  show "1 \<le> centos_dependsCount PkgInfoMap q" using a by (rule centos_dependsCount_ge_1)
qed

text \<open>On scenario S3 the counts are \<open>1\<close> in both collectors.\<close>

lemma S3_alpine_eval:
  "alpine_closure S3_alpine (zero_PackageInfo\<lparr>PackageName := ''A'', Depends := [''X'']\<rparr>) = [''A'']"
  "alpine_dependsCount S3_alpine ''A'' = 1"
  by (simp_all add: alpine_dependsCount_def depMap_def countMap_def increment_def lookupCount_def
      alpine_closure_def S3_alpine_def zero_PackageInfo_def GetAllDependencies.simps)

lemma S3_centos_eval:
  "centos_dependsCount S3_centos ''A'' = 1"
  by (simp_all add: centos_dependsCount_def centos_depMap_def countMap_def increment_def lookupCount_def
      centos_closure_def S3_centos_def zero_centos_PackageInfo_def getAllDep.simps)

theorem closure_reachable_in_index_witness:
  "keys_are_names S3_alpine
   \<and> map_of S3_alpine ''A'' = Some (zero_PackageInfo\<lparr>PackageName := ''A'', Depends := [''X'']\<rparr>)
   \<and> (alpine_edges S3_alpine)\<^sup>* `` {''A''} = {''A''}
   \<and> alpine_closure S3_alpine (zero_PackageInfo\<lparr>PackageName := ''A'', Depends := [''X'']\<rparr>) = [''A'']
   \<and> alpine_dependsCount S3_alpine ''A'' = 1
   \<and> map_of S3_centos ''A'' \<noteq> None
   \<and> (centos_index_edges S3_centos)\<^sup>* `` {''A''} = {''A''}
   \<and> (centos_edges S3_centos)\<^sup>* `` {''A''} = {''A'', ''X''}
   \<and> centos_dependsCount S3_centos ''A'' = 1"
proof -
  have h1: "keys_are_names S3_alpine"
    by (simp add: keys_are_names_def S3_alpine_def zero_PackageInfo_def)
  have h2: "map_of S3_alpine ''A'' = Some (zero_PackageInfo\<lparr>PackageName := ''A'', Depends := [''X'']\<rparr>)"
    by (simp add: S3_alpine_def)
  have h3: "map_of S3_centos ''A'' \<noteq> None" by (simp add: S3_centos_def)
  note t = closure_reachable_in_index[of S3_alpine "''A''"
      "zero_PackageInfo\<lparr>PackageName := ''A'', Depends := [''X'']\<rparr>" S3_centos "''A''"]
  from t h1 h2
  have "set (alpine_closure S3_alpine (zero_PackageInfo\<lparr>PackageName := ''A'', Depends := [''X'']\<rparr>))
      = (alpine_edges S3_alpine)\<^sup>* `` {''A''}"
    by blast
  then have a: "(alpine_edges S3_alpine)\<^sup>* `` {''A''} = {''A''}"
    by (simp add: S3_alpine_eval(1))
  have e: "centos_closure S3_centos ''A'' = [''A'', ''X'']"
    by (simp add: centos_closure_def S3_centos_def zero_centos_PackageInfo_def getAllDep.simps)
  have f: "{y \<in> set [''A'', ''X'']. map_of S3_centos y \<noteq> None} = {''A''}"
    by (auto simp: S3_centos_def)
  from t h3
  have g: "{y \<in> set (centos_closure S3_centos ''A''). map_of S3_centos y \<noteq> None}
      = (centos_index_edges S3_centos)\<^sup>* `` {''A''}"
    "set (centos_closure S3_centos ''A'') = (centos_edges S3_centos)\<^sup>* `` {''A''}"
    by blast+
  have c1: "(centos_index_edges S3_centos)\<^sup>* `` {''A''} = {''A''}"
    by (rule trans[OF g(1)[unfolded e, symmetric] f])
  have "set [''A'', ''X''] = {''A'', ''X''}" by simp
  then have c2: "(centos_edges S3_centos)\<^sup>* `` {''A''} = {''A'', ''X''}"
    by (rule trans[OF g(2)[unfolded e, symmetric]])
  show ?thesis using h1 h2 h3 a c1 c2 S3_alpine_eval S3_centos_eval by simp
qed

section \<open>Records with the same name\<close>











section \<open>PageRank executes no division by zero\<close>

lemma fillRanks_total:
  "numPackages \<noteq> 0 \<or> ks = [] \<Longrightarrow> \<exists>pr. fillRanks x numPackages ks pageRank = Some pr"
  by (induction ks arbitrary: pageRank) (auto simp: fdiv_def)

lemma distribute_total:
  "(\<exists>d \<in> set ds. exists d) \<longrightarrow> depNum \<noteq> 0 \<Longrightarrow>
     \<exists>pr. distribute exists dampingFactor rank depNum ds newPageRank = Some pr"
  by (induction ds arbitrary: newPageRank) (auto simp: fdiv_def)

lemma spread_total: "\<exists>pr. spread exists dampingFactor pageRank graph newPageRank = Some pr"
proof (induction graph arbitrary: newPageRank)
  case Nil
  then show ?case by simp
next
  case (Cons a graph)
  obtain pkgName depends where a: "a = (pkgName, depends)" by (cases a)
  have "(\<exists>d \<in> set depends. exists d) \<longrightarrow> int (length (filter exists depends)) \<noteq> 0"
    by (auto simp: filter_empty_conv)
  from distribute_total[OF this] obtain npr where
    "distribute exists dampingFactor (lookupRank pageRank pkgName)
       (int (length (filter exists depends))) depends newPageRank = Some npr"
    by blast
  with Cons[of npr] a show ?case by simp
qed

lemma iterate_total: "\<exists>pr. iterate i dampingFactor graph pageRank = Some pr"
proof (induction i arbitrary: pageRank)
  case 0
  then show ?case by simp
next
  case (Suc i)
  have "int (length graph) \<noteq> 0 \<or> map fst graph = []" by auto
  from fillRanks_total[OF this] obtain npr where
    a: "fillRanks (1 - dampingFactor) (int (length graph)) (map fst graph) Map.empty = Some npr"
    by blast
  obtain npr' where
    b: "spread (\<lambda>depName. map_of graph depName \<noteq> None) dampingFactor pageRank graph npr = Some npr'"
    using spread_total by blast
  from Suc[of npr'] a b show ?case by simp
qed

lemma calculatePageRank_total: "\<exists>pr. calculatePageRank graph iterations dampingFactor = Some pr"
proof -
  have "int (length graph) \<noteq> 0 \<or> map fst graph = []" by auto
  from fillRanks_total[OF this] obtain pr0 where
    "fillRanks 1 (int (length graph)) (map fst graph) Map.empty = Some pr0"
    by blast
  then show ?thesis using iterate_total[of "nat iterations" dampingFactor graph pr0]
    by (simp add: calculatePageRank_def)
qed

lemma iterate_empty: "iterate i dampingFactor [] Map.empty = Some Map.empty"
  by (induction i) auto

lemma calculatePageRank_empty: "calculatePageRank [] iterations dampingFactor = Some Map.empty"
  by (simp add: calculatePageRank_def iterate_empty)

text \<open>
  C10. For every index, iteration count and damping factor, \<open>calculatePageRank\<close> of either
  collector returns a rank map, that is, none of its divisions had the divisor zero: the
  divisions by \<open>numPackages\<close> stand inside loops over the packages, and the division by
  \<open>depNum\<close> is executed only for a token that was counted in \<open>depNum\<close>. On the empty index the
  result is the empty map.
\<close>

theorem calculatePageRank_no_division_by_zero:
  "(\<exists>pr. alpine_calculatePageRank pkgInfoMap iterations dampingFactor = Some pr)
   \<and> (\<exists>pr. centos_calculatePageRank PkgInfoMap iterations dampingFactor = Some pr)
   \<and> alpine_calculatePageRank [] iterations dampingFactor = Some Map.empty
   \<and> centos_calculatePageRank [] iterations dampingFactor = Some Map.empty"
  using calculatePageRank_total
  by (simp add: alpine_calculatePageRank_def centos_calculatePageRank_def alpine_graph_def
      centos_graph_def calculatePageRank_empty)

section \<open>The sum of the ranks in exact arithmetic\<close>

text \<open>
  The ranks of the model are exact reals, so nothing here bounds the rounding error of the
  \<open>float64\<close> computation. What the iteration does to the sum of the ranks when no rounding
  occurs: without dangling packages the sum stays \<open>1\<close>; with a damping factor between \<open>0\<close> and
  \<open>1\<close> it never exceeds \<open>1\<close>.
\<close>

lemma totalRank_update_notin:
  "k \<notin> set ks \<Longrightarrow> totalRank ks (pr(k \<mapsto> v)) = totalRank ks pr"
  by (induction ks) (auto simp: totalRank_def lookupRank_def)

lemma totalRank_update:
  "distinct ks \<Longrightarrow> k \<in> set ks \<Longrightarrow>
     totalRank ks (pr(k \<mapsto> v)) = totalRank ks pr - lookupRank pr k + v"
proof (induction ks)
  case Nil
  then show ?case by simp
next
  case (Cons a ks)
  show ?case
  proof (cases "a = k")
    case True
    with Cons.prems have "k \<notin> set ks" by simp
    from totalRank_update_notin[OF this, of pr v] True show ?thesis
      by (simp add: totalRank_def lookupRank_def)
  next
    case False
    with Cons show ?thesis by (simp add: totalRank_def lookupRank_def)
  qed
qed

lemma fillRanks_value:
  "fillRanks x n ks pr0 = Some pr \<Longrightarrow>
     lookupRank pr k = (if k \<in> set ks then x / real_of_int n else lookupRank pr0 k)"
proof (induction ks arbitrary: pr0)
  case Nil
  then show ?case by simp
next
  case (Cons a ks)
  from Cons.prems have n: "n \<noteq> 0" by (auto simp: fdiv_def split: if_splits)
  with Cons.prems have "fillRanks x n ks (pr0(a \<mapsto> x / real_of_int n)) = Some pr"
    by (simp add: fdiv_def)
  from Cons.IH[OF this] show ?case by (auto simp: lookupRank_def)
qed

lemma totalRank_const:
  "(\<And>k. k \<in> set ks \<Longrightarrow> lookupRank pr k = c) \<Longrightarrow> totalRank ks pr = real (length ks) * c"
  by (induction ks) (auto simp: totalRank_def algebra_simps)

lemma fillRanks_total_mass:
  assumes "fillRanks x (int (length ks)) ks Map.empty = Some pr" and "ks \<noteq> []"
  shows "totalRank ks pr = x"
proof -
  have "lookupRank pr k = x / real (length ks)" if "k \<in> set ks" for k
    using fillRanks_value[OF assms(1), of k] that by simp
  from totalRank_const[of ks pr, OF this] assms(2) show ?thesis by simp
qed

lemma distribute_mass:
  assumes "distinct ks" and "\<And>d. exists d \<Longrightarrow> d \<in> set ks"
    and "distribute exists damp rank depNum ds npr = Some npr'"
  shows "totalRank ks npr'
     = totalRank ks npr + real (length (filter exists ds)) * (damp * (rank / real_of_int depNum))"
  using assms(3)
proof (induction ds arbitrary: npr)
  case Nil
  then show ?case by simp
next
  case (Cons d ds)
  define c where "c = damp * (rank / real_of_int depNum)"
  show ?case
  proof (cases "exists d")
    case False
    with Cons show ?thesis by simp
  next
    case True
    with Cons.prems have n: "depNum \<noteq> 0" by (auto simp: fdiv_def split: if_splits)
    define npr1 where "npr1 = npr(d \<mapsto> lookupRank npr d + c)"
    from Cons.prems True n have "distribute exists damp rank depNum ds npr1 = Some npr'"
      by (simp add: fdiv_def npr1_def c_def)
    from Cons.IH[OF this]
    have a: "totalRank ks npr' = totalRank ks npr1 + real (length (filter exists ds)) * c"
      by (simp add: c_def)
    have b: "totalRank ks npr1 = totalRank ks npr - lookupRank npr d + (lookupRank npr d + c)"
      unfolding npr1_def by (rule totalRank_update[OF assms(1) assms(2)[OF True]])
    have "real (length (filter exists (d # ds))) * c = c + real (length (filter exists ds)) * c"
      using True by (simp add: algebra_simps)
    with a b show ?thesis unfolding c_def[symmetric] by linarith
  qed
qed

lemma nonnegRanks_update:
  "nonnegRanks pr \<Longrightarrow> 0 \<le> v \<Longrightarrow> nonnegRanks (pr(k \<mapsto> v))"
  by (simp add: nonnegRanks_def lookupRank_def)

lemma distribute_nonneg:
  assumes "0 \<le> damp" and "0 \<le> rank" and "0 \<le> depNum" and "nonnegRanks npr"
    and "distribute exists damp rank depNum ds npr = Some npr'"
  shows "nonnegRanks npr'"
  using assms(4,5)
proof (induction ds arbitrary: npr)
  case Nil
  then show ?case by simp
next
  case (Cons d ds)
  show ?case
  proof (cases "exists d")
    case False
    with Cons show ?thesis by simp
  next
    case True
    with Cons.prems have n: "depNum \<noteq> 0" by (auto simp: fdiv_def split: if_splits)
    define npr1 where "npr1 = npr(d \<mapsto> lookupRank npr d + damp * (rank / real_of_int depNum))"
    from Cons.prems True n have run: "distribute exists damp rank depNum ds npr1 = Some npr'"
      by (simp add: fdiv_def npr1_def)
    have "0 \<le> lookupRank npr d" using Cons.prems(1) by (simp add: nonnegRanks_def)
    moreover have "0 \<le> damp * (rank / real_of_int depNum)" using assms(1,2,3) by simp
    ultimately have "nonnegRanks npr1"
      unfolding npr1_def using Cons.prems(1) by (intro nonnegRanks_update) simp_all
    from Cons.IH[OF this run] show ?thesis .
  qed
qed

lemma spread_mass:
  assumes "distinct ks" and "\<And>d. exists d \<Longrightarrow> d \<in> set ks"
    and "spread exists damp pr graph npr = Some npr'"
  shows "totalRank ks npr'
     = totalRank ks npr
       + damp * (\<Sum>(p, ds)\<leftarrow>graph. if filter exists ds = [] then 0 else lookupRank pr p)"
  using assms(3)
proof (induction graph arbitrary: npr)
  case Nil
  then show ?case by simp
next
  case (Cons a graph)
  obtain p ds where a: "a = (p, ds)" by (cases a)
  from Cons.prems a obtain npr1 where
    one: "distribute exists damp (lookupRank pr p) (int (length (filter exists ds))) ds npr = Some npr1"
    and rest: "spread exists damp pr graph npr1 = Some npr'"
    by (auto split: Option.bind_splits)
  have "totalRank ks npr1 = totalRank ks npr
      + real (length (filter exists ds))
        * (damp * (lookupRank pr p / real_of_int (int (length (filter exists ds)))))"
    by (rule distribute_mass[OF assms(1,2) one])
  then have "totalRank ks npr1 = totalRank ks npr
      + damp * (if filter exists ds = [] then 0 else lookupRank pr p)"
    by simp
  with Cons.IH[OF rest] a show ?case by (simp add: algebra_simps)
qed

lemma spread_nonneg:
  assumes "0 \<le> damp" and "nonnegRanks pr" and "nonnegRanks npr"
    and "spread exists damp pr graph npr = Some npr'"
  shows "nonnegRanks npr'"
  using assms(3,4)
proof (induction graph arbitrary: npr)
  case Nil
  then show ?case by simp
next
  case (Cons a graph)
  obtain p ds where a: "a = (p, ds)" by (cases a)
  from Cons.prems a obtain npr1 where
    one: "distribute exists damp (lookupRank pr p) (int (length (filter exists ds))) ds npr = Some npr1"
    and rest: "spread exists damp pr graph npr1 = Some npr'"
    by (auto split: Option.bind_splits)
  have "0 \<le> lookupRank pr p" using assms(2) by (simp add: nonnegRanks_def)
  from distribute_nonneg[OF assms(1) this _ Cons.prems(1) one] have "nonnegRanks npr1" by simp
  from Cons.IH[OF this rest] show ?case .
qed

lemma sum_nondangling_eq:
  "list_all (\<lambda>(p, ds). filter exists ds \<noteq> []) graph \<Longrightarrow>
     (\<Sum>(p, ds)\<leftarrow>graph. if filter exists ds = [] then 0 else lookupRank pr p)
       = totalRank (map fst graph) pr"
  by (induction graph) (auto simp: totalRank_def)

lemma sum_nondangling_le:
  "nonnegRanks pr \<Longrightarrow>
     (\<Sum>(p, ds)\<leftarrow>graph. if filter exists ds = [] then 0 else lookupRank pr p)
       \<le> totalRank (map fst graph) pr"
proof (induction graph)
  case Nil
  then show ?case by (simp add: totalRank_def)
next
  case (Cons a graph)
  obtain p ds where a: "a = (p, ds)" by (cases a)
  have "0 \<le> lookupRank pr p" using Cons.prems by (simp add: nonnegRanks_def)
  with Cons a show ?case by (simp add: totalRank_def)
qed

lemma fillRanks_nonneg:
  assumes "fillRanks x n ks Map.empty = Some pr" and "0 \<le> x" and "0 \<le> n"
  shows "nonnegRanks pr"
  unfolding nonnegRanks_def
proof
  fix k
  show "0 \<le> lookupRank pr k"
    using fillRanks_value[OF assms(1), of k] assms(2,3) by (simp add: lookupRank_def)
qed

lemma exists_is_key: "map_of graph d \<noteq> None \<Longrightarrow> d \<in> set (map fst graph)"
  by (auto simp: map_of_eq_None_iff)

lemma iterate_step:
  assumes "iterate (Suc i) damp graph pr = Some pr'"
  obtains npr0 npr1 where
    "fillRanks (1 - damp) (int (length graph)) (map fst graph) Map.empty = Some npr0"
    "spread (\<lambda>depName. map_of graph depName \<noteq> None) damp pr graph npr0 = Some npr1"
    "iterate i damp graph npr1 = Some pr'"
  using assms by (auto simp: Let_def split: Option.bind_splits)

lemma iterate_mass_eq:
  assumes "distinct (map fst graph)" and "graph \<noteq> []" and "no_dangling graph"
  shows "iterate i damp graph pr = Some pr' \<Longrightarrow> totalRank (map fst graph) pr = 1 \<Longrightarrow>
     totalRank (map fst graph) pr' = 1"
proof (induction i arbitrary: pr)
  case 0
  then show ?case by simp
next
  case (Suc i)
  from Suc.prems(1) obtain npr0 npr1 where
    f: "fillRanks (1 - damp) (int (length graph)) (map fst graph) Map.empty = Some npr0"
    and s: "spread (\<lambda>depName. map_of graph depName \<noteq> None) damp pr graph npr0 = Some npr1"
    and r: "iterate i damp graph npr1 = Some pr'"
    by (rule iterate_step)
  have "totalRank (map fst graph) npr0 = 1 - damp"
    using fillRanks_total_mass[of "1 - damp" "map fst graph" npr0] f assms(2) by simp
  moreover have "totalRank (map fst graph) npr1 = totalRank (map fst graph) npr0
      + damp * totalRank (map fst graph) pr"
    using spread_mass[OF assms(1) exists_is_key s] sum_nondangling_eq[of _ graph pr] assms(3)
    by (simp add: no_dangling_def)
  ultimately have "totalRank (map fst graph) npr1 = 1" using Suc.prems(2) by simp
  from Suc.IH[OF r this] show ?case .
qed

lemma iterate_mass_le:
  assumes "distinct (map fst graph)" and "graph \<noteq> []" and "0 \<le> damp" and "damp \<le> 1"
  shows "iterate i damp graph pr = Some pr' \<Longrightarrow> nonnegRanks pr \<Longrightarrow>
     totalRank (map fst graph) pr \<le> 1 \<Longrightarrow> totalRank (map fst graph) pr' \<le> 1"
proof (induction i arbitrary: pr)
  case 0
  then show ?case by simp
next
  case (Suc i)
  from Suc.prems(1) obtain npr0 npr1 where
    f: "fillRanks (1 - damp) (int (length graph)) (map fst graph) Map.empty = Some npr0"
    and s: "spread (\<lambda>depName. map_of graph depName \<noteq> None) damp pr graph npr0 = Some npr1"
    and r: "iterate i damp graph npr1 = Some pr'"
    by (rule iterate_step)
  have m0: "totalRank (map fst graph) npr0 = 1 - damp"
    using fillRanks_total_mass[of "1 - damp" "map fst graph" npr0] f assms(2) by simp
  have n0: "nonnegRanks npr0" using fillRanks_nonneg[OF f] assms(4) by simp
  have n1: "nonnegRanks npr1" by (rule spread_nonneg[OF assms(3) Suc.prems(2) n0 s])
  have "(\<Sum>(p, ds)\<leftarrow>graph. if filter (\<lambda>depName. map_of graph depName \<noteq> None) ds = [] then 0
          else lookupRank pr p) \<le> totalRank (map fst graph) pr"
    by (rule sum_nondangling_le[OF Suc.prems(2)])
  then have "damp * (\<Sum>(p, ds)\<leftarrow>graph. if filter (\<lambda>depName. map_of graph depName \<noteq> None) ds = []
          then 0 else lookupRank pr p) \<le> damp * 1"
    using Suc.prems(3) assms(3) by (intro mult_left_mono) simp_all
  with spread_mass[OF assms(1) exists_is_key s] m0
  have "totalRank (map fst graph) npr1 \<le> 1" by simp
  from Suc.IH[OF r n1 this] show ?case .
qed

lemma calculatePageRank_mass_exact:
  assumes "distinct (map fst graph)" and "graph \<noteq> []"
    and "calculatePageRank graph iterations damp = Some pr"
  shows "no_dangling graph \<Longrightarrow> totalRank (map fst graph) pr = 1"
    and "0 \<le> damp \<Longrightarrow> damp \<le> 1 \<Longrightarrow> totalRank (map fst graph) pr \<le> 1"
proof -
  from assms(3) obtain pr0 where
    f: "fillRanks 1 (int (length graph)) (map fst graph) Map.empty = Some pr0"
    and r: "iterate (nat iterations) damp graph pr0 = Some pr"
    by (auto simp: calculatePageRank_def Let_def split: Option.bind_splits)
  have m0: "totalRank (map fst graph) pr0 = 1"
    using fillRanks_total_mass[of 1 "map fst graph" pr0] f assms(2) by simp
  have n0: "nonnegRanks pr0" using fillRanks_nonneg[OF f] by simp
  show "no_dangling graph \<Longrightarrow> totalRank (map fst graph) pr = 1"
    using iterate_mass_eq[OF assms(1,2) _ r m0] by simp
  show "0 \<le> damp \<Longrightarrow> damp \<le> 1 \<Longrightarrow> totalRank (map fst graph) pr \<le> 1"
    using iterate_mass_le[OF assms(1,2) _ _ r n0] m0 by simp
qed

section \<open>Persisted edges\<close>

lemma storeDependencies_loop_sub:
  "set (snd (storeDependencies_loop pkgName ds rows)) \<subseteq> set rows \<union> {pkgName} \<times> set ds"
proof (induction ds arbitrary: rows)
  case Nil
  then show ?case by simp
next
  case (Cons d ds)
  show ?case
  proof (cases "(pkgName, d) \<in> set rows")
    case True
    then show ?thesis by (auto simp: insert_relationship_def)
  next
    case False
    with Cons[of "rows @ [(pkgName, d)]"] show ?thesis
      by (auto simp: insert_relationship_def)
  qed
qed

lemma storeDependencies_loop_mono:
  "set rows \<subseteq> set (snd (storeDependencies_loop pkgName ds rows))"
proof (induction ds arbitrary: rows)
  case Nil
  then show ?case by simp
next
  case (Cons d ds)
  show ?case
  proof (cases "(pkgName, d) \<in> set rows")
    case True
    then show ?thesis by (auto simp: insert_relationship_def)
  next
    case False
    with Cons[of "rows @ [(pkgName, d)]"] show ?thesis
      by (auto simp: insert_relationship_def)
  qed
qed

lemma storeDependencies_loop_first:
  "(pkgName, dep) \<in> set (snd (storeDependencies_loop pkgName (dep # rest) rows))"
  using storeDependencies_loop_mono[of "rows @ [(pkgName, dep)]" pkgName rest]
  by (auto simp: insert_relationship_def)

lemma storeDependenciesInDatabase_rows:
  "set (relationships (snd (storeDependenciesInDatabase db pkgName ds)))
     \<subseteq> set (relationships db) \<union> {pkgName} \<times> set ds"
  "set (relationships db) \<subseteq> set (relationships (snd (storeDependenciesInDatabase db pkgName ds)))"
  "available (snd (storeDependenciesInDatabase db pkgName ds)) = available db"
  using storeDependencies_loop_sub[of pkgName ds "relationships db"]
    storeDependencies_loop_mono[of "relationships db" pkgName ds]
  by (auto simp: storeDependenciesInDatabase_def split: prod.splits)

lemma storeAll_Cons:
  "\<exists>printed'. storeAll ((pkgName, depends) # rest) db printed
     = storeAll rest (snd (storeDependenciesInDatabase db pkgName depends)) printed'"
  by (cases "storeDependenciesInDatabase db pkgName depends") (auto split: option.splits)


lemma storeAll_mono:
  "set (relationships db) \<subseteq> set (relationships (fst (storeAll graph db printed)))"
proof (induction graph arbitrary: db printed)
  case Nil
  then show ?case by simp
next
  case (Cons a graph)
  obtain pkgName depends where a: "a = (pkgName, depends)" by (cases a)
  let ?db' = "snd (storeDependenciesInDatabase db pkgName depends)"
  obtain printed' where
    step: "storeAll ((pkgName, depends) # graph) db printed = storeAll graph ?db' printed'"
    using storeAll_Cons by blast
  have "set (relationships db) \<subseteq> set (relationships ?db')"
    by (rule storeDependenciesInDatabase_rows(2))
  with Cons[of ?db' printed'] show ?case unfolding a step by auto
qed

lemma storeAll_first_token:
  assumes "available db" and "(pkgName, dep # others) \<in> set graph"
  shows "(pkgName, dep) \<in> set (relationships (fst (storeAll graph db printed)))"
  using assms
proof (induction graph arbitrary: db printed)
  case Nil
  then show ?case by simp
next
  case (Cons a graph)
  obtain p depends where a: "a = (p, depends)" by (cases a)
  let ?db' = "snd (storeDependenciesInDatabase db p depends)"
  obtain printed' where
    step: "storeAll ((p, depends) # graph) db printed = storeAll graph ?db' printed'"
    using storeAll_Cons by blast
  have av: "available ?db'"
    using storeDependenciesInDatabase_rows(3)[of db p depends] Cons.prems(1) by simp
  show ?case
  proof (cases "(pkgName, dep # others) = a")
    case True
    with a Cons.prems(1) have "(pkgName, dep) \<in> set (relationships ?db')"
      using storeDependencies_loop_first[of pkgName dep others "relationships db"]
      by (auto simp: storeDependenciesInDatabase_def split: prod.splits)
    then show ?thesis
      unfolding a step using storeAll_mono[of ?db' graph printed'] by auto
  next
    case False
    with Cons.prems(2) have "(pkgName, dep # others) \<in> set graph" by simp
    from Cons.IH[OF av this] show ?thesis unfolding a step .
  qed
qed






section \<open>A trailing .git in a repository link\<close>

lemma matchGithubAt_segments:
  assumes "owner \<noteq> []" "repo \<noteq> []" "list_all segmentChar owner" "list_all segmentChar repo"
  shows "matchGithubAt (''https://github.com/'' @ owner @ ''/'' @ repo) = Some (owner @ ''/'' @ repo)"
proof -
  have o: "takeWhile segmentChar (owner @ CHR ''/'' # repo) = owner"
    "dropWhile segmentChar (owner @ CHR ''/'' # repo) = CHR ''/'' # repo"
    using assms(3) by (simp_all add: list_all_iff takeWhile_append2 dropWhile_append2 segmentChar_def)
  have r: "takeWhile segmentChar repo = repo"
    using assms(4) by (simp add: list_all_iff)
  show ?thesis
    using assms(1,2) by (simp add: matchGithubAt_def Let_def o r del: takeWhile_append dropWhile_append)
qed

lemma normalizeLink_segments:
  assumes "owner \<noteq> []" "repo \<noteq> []" "list_all segmentChar owner" "list_all segmentChar repo"
  shows "normalizeLink (''https://github.com/'' @ owner @ ''/'' @ repo)
     = Some (''https://github.com/'' @ owner @ ''/'' @ repo)"
  using matchGithubAt_segments[OF assms]
  by (simp add: normalizeLink_def)

lemma normalizeLink_git_distinct:
  assumes "owner \<noteq> []" "repo \<noteq> []" "list_all segmentChar owner" "list_all segmentChar repo"
  shows "normalizeLink (''https://github.com/'' @ owner @ ''/'' @ repo @ ''.git'')
     \<noteq> normalizeLink (''https://github.com/'' @ owner @ ''/'' @ repo)"
proof -
  have "list_all segmentChar (repo @ ''.git'')"
    using assms(4) by (simp add: segmentChar_def isReSpace_def)
  from normalizeLink_segments[OF assms(1) _ assms(3) this] normalizeLink_segments[OF assms]
  show ?thesis by simp
qed

lemma depsdev_strips_git:
  "depsdev_target ''https://github.com/O/R.git'' = Some (''O'', ''R'')"
  "depsdev_target ''https://github.com/O/R'' = Some (''O'', ''R'')"
  by (simp_all add: depsdev_target_def HasPrefix_def HasSuffix_def TrimSuffix_def Split.simps
      suffix_to_prefix)

text \<open>
  C3. \<open>syncGitMetrics\<close> keeps a trailing \<open>.git\<close>: the links \<open>https://github.com/O/R.git\<close> and
  \<open>https://github.com/O/R\<close> are normalized to themselves, and from an empty table the
  synchroniser inserts one row for each of them. (The deps.dev collector, reading the same
  table, does remove the suffix from the repository name: \<open>depsdev_strips_git\<close>.)
\<close>

theorem git_suffix_kept:
  "normalizeLink ''https://github.com/O/R.git'' = Some ''https://github.com/O/R.git''
   \<and> normalizeLink ''https://github.com/O/R'' = Some ''https://github.com/O/R''
   \<and> set (map fst (syncGitMetrics queryDepsDev []
          [''https://github.com/O/R.git'', ''https://github.com/O/R'']))
       = {''https://github.com/O/R.git'', ''https://github.com/O/R''}"
  by (auto simp: syncGitMetrics_def normalizeLinks_def normalizeLink_def matchGithubAt_def
      segmentChar_def isReSpace_def Split.simps Let_def)

section \<open>Retries after a rate limit\<close>










end
